theory Spec2Isabelle
  imports Main "HOL-Library.Stream" "HOL-Library.Word" "HOL-Library.Signed_Division"
begin

section \<open>Data model of pool.go\<close>

text \<open>
  The worker pool of \<^verbatim>\<open>pool.go\<close>, embedded as pure functions over an explicit state.
  Go's \<^verbatim>\<open>int\<close>, \<^verbatim>\<open>int32\<close> and \<^verbatim>\<open>int64\<close> values are modelled as \<open>int\<close>: the only
  arithmetic of the file is on slice indices, on the open/closed flag and on job counters,
  none of which comes near the word size. A \<^verbatim>\<open>*worker\<close> is an address into an explicit
  heap; \<^verbatim>\<open>nil\<close> is \<open>None\<close>.
\<close>

datatype WorkType = ETERNAL | TEMPORARY

type_synonym addr = nat

type_synonym TaskContext = nat

text \<open>
  The fields of \<^verbatim>\<open>worker\<close> that \<^verbatim>\<open>pool.go\<close> reads (\<^verbatim>\<open>ID\<close>, \<^verbatim>\<open>jobNum\<close>, \<^verbatim>\<open>Blocking\<close>),
  and the capacity and kind handed to \<^verbatim>\<open>newWorker\<close>.
\<close>

record worker =
  ID :: int
  jobNum :: int
  Blocking :: "32 word"
  content :: int
  wtype :: WorkType

text \<open>The fields of \<^verbatim>\<open>TaskConf\<close> that \<^verbatim>\<open>pool.go\<close> reads.\<close>

record TaskConf =
  WorkerNum :: int
  WorkerContent :: int
  ExpTime :: int

text \<open>
  What lives outside the \<^verbatim>\<open>Pool\<close> struct: the heap of workers with its allocation
  pointer, the shared wait group's counter, the values the two random generators will
  produce (\<open>seededRand\<close> for \<^verbatim>\<open>p.randSource\<close>, \<open>globalRand\<close> for the package-level
  \<^verbatim>\<open>rand\<close>), the identities \<^verbatim>\<open>GetUUID\<close> will hand out, and the seconds waited on tickers.
\<close>

record runtime =
  heap :: "addr \<Rightarrow> worker"
  nextAddr :: addr
  wg :: int
  seededRand :: "nat stream"
  globalRand :: "nat stream"
  uuids :: "int stream"
  clock :: nat

text \<open>
  The \<^verbatim>\<open>Pool\<close> struct. \<open>cancelled\<close> stands for the master context
  (\<^verbatim>\<open>cancelCtx\<close>, \<^verbatim>\<open>cancel\<close>); a nil slice is \<open>None\<close>. \<open>isClose\<close> is 1 when the pool
  is closed and 2 when it is open, as the comment on the field says.
\<close>

record Pool = runtime +
  eternalWorker :: "addr list"
  cancelled :: bool
  conf :: TaskConf
  isClose :: int
  temporaryWorker :: "addr list option"

datatype panic =
  WorkerNumBelowTwo
  | IndexOutOfRange
  | InvalidIntnArgument
  | NonPositiveTickerInterval
  | NilDereference

text \<open>
  The outcome of a call: \<open>None\<close> when it never returns, \<open>Some (Inl e)\<close> when it
  panics, \<open>Some (Inr v)\<close> when it returns \<open>v\<close>.
\<close>

type_synonym 'a outcome = "(panic + 'a) option"

text \<open>Indexing a slice: Go panics outside \<open>0 \<le> i < len\<close>.\<close>

definition index_slice :: "'a list \<Rightarrow> int \<Rightarrow> panic + 'a" where
  "index_slice xs i =
     (if 0 \<le> i \<and> i < int (length xs) then Inr (xs ! nat i) else Inl IndexOutOfRange)"

text \<open>A nil slice has length 0 and no elements.\<close>

definition slice_of :: "'a list option \<Rightarrow> 'a list" where
  "slice_of s = (case s of None \<Rightarrow> [] | Some xs \<Rightarrow> xs)"

text \<open>Sequencing of calls: a callee that never returns or panics ends the caller.\<close>

definition bind_outcome :: "'a outcome \<Rightarrow> ('a \<Rightarrow> 'b outcome) \<Rightarrow> 'b outcome" where
  "bind_outcome m k =
     (case m of None \<Rightarrow> None | Some (Inl e) \<Rightarrow> Some (Inl e) | Some (Inr v) \<Rightarrow> k v)"

section \<open>The worker\<close>

text \<open>
  Modelled from the spec: \<^verbatim>\<open>newWorker\<close> (the worker's constructor is not part of
  \<^verbatim>\<open>pool.go\<close>). A new worker has the given identity, capacity and kind, no jobs and a
  clear backpressure flag; it is allocated at the next free address.
\<close>

definition newWorker :: "int \<Rightarrow> int \<Rightarrow> WorkType \<Rightarrow> Pool \<Rightarrow> addr \<times> Pool" where
  "newWorker wid cap t p =
     (let a = nextAddr p in
      (a, p\<lparr>heap := (heap p)(a := \<lparr>ID = wid, jobNum = 0, Blocking = 0, content = cap, wtype = t\<rparr>),
            nextAddr := Suc a\<rparr>))"

text \<open>
  Modelled from the spec: \<^verbatim>\<open>worker.sendJob\<close>. A non-blocking attempt to enqueue:
  success increments \<open>jobNum\<close> and returns true; at capacity (the capacity bounds the
  jobs in flight and queued, which \<open>jobNum\<close> counts) it sets the backpressure flag and
  returns false.
\<close>

definition sendJob :: "addr \<Rightarrow> TaskContext \<Rightarrow> Pool \<Rightarrow> bool \<times> Pool" where
  "sendJob a job p =
     (let w = heap p a in
      if jobNum w < content w
      then (True, p\<lparr>heap := (heap p)(a := w\<lparr>jobNum := jobNum w + 1\<rparr>)\<rparr>)
      else (False, p\<lparr>heap := (heap p)(a := w\<lparr>Blocking := 1\<rparr>)\<rparr>))"

text \<open>Modelled from the spec: \<^verbatim>\<open>worker.IsBlocking\<close> returns the backpressure flag.\<close>

definition IsBlocking :: "addr \<Rightarrow> Pool \<Rightarrow> bool" where
  "IsBlocking a p = (Blocking (heap p a) = 1)"

text \<open>
  Modelled from the spec: one turn of the worker's run loop on a job. The worker
  waits for a queued job, executes it, then decrements \<open>jobNum\<close> and clears the
  backpressure flag if the load has dropped below capacity. With nothing queued the
  loop keeps waiting and the state stays as it is.
\<close>

definition finishJob :: "addr \<Rightarrow> Pool \<Rightarrow> Pool" where
  "finishJob a p =
     (let w = heap p a in
      if 0 < jobNum w
      then p\<lparr>heap := (heap p)(a := w\<lparr>jobNum := jobNum w - 1,
              Blocking := (if jobNum w - 1 < content w then 0 else Blocking w)\<rparr>)\<rparr>
      else p)"

section \<open>Removal from the temporary registry\<close>

text \<open>
  The loop of \<^verbatim>\<open>removeFromParent\<close>. Go's \<^verbatim>\<open>/\<close> truncates towards zero (\<open>sdiv\<close>), and
  the probe is \<^verbatim>\<open>l + ((l - r) / 2)\<close> as written. After the tests for \<^verbatim>\<open>==\<close> and \<^verbatim>\<open>>\<close>
  the third test \<^verbatim>\<open><\<close> always holds. The loop is not a terminating recursion for
  every \<open>l\<close> and \<open>r\<close> (a probe below \<open>l\<close> can leave both as they are), so not
  returning is the value \<open>None\<close>.
\<close>

partial_function (option) removeFromParent_loop :: "int \<Rightarrow> int \<Rightarrow> int \<Rightarrow> Pool \<Rightarrow> (panic + Pool) option" where
  "removeFromParent_loop l r wid p =
     (if l < r then
        (let mid = l + ((l - r) sdiv 2); tw = slice_of (temporaryWorker p) in
         case index_slice tw mid of
           Inl e \<Rightarrow> Some (Inl e)
         | Inr a \<Rightarrow>
             if ID (heap p a) = wid
             then Some (Inr (p\<lparr>temporaryWorker := Some (take (nat mid) tw @ drop (nat (mid + 1)) tw)\<rparr>))
             else if ID (heap p a) > wid
             then removeFromParent_loop l (mid - 1) wid p
             else removeFromParent_loop (mid + 1) r wid p)
      else Some (Inr p))"

definition removeFromParent :: "int \<Rightarrow> Pool \<Rightarrow> Pool outcome" where
  "removeFromParent wid p =
     (case temporaryWorker p of
        None \<Rightarrow> Some (Inr p)
      | Some tw \<Rightarrow>
          if length tw = 0 then Some (Inr p)
          else
            (let lenTemp = int (length tw) in
             if lenTemp = 1 then
               (case index_slice tw 0 of
                  Inl e \<Rightarrow> Some (Inl e)
                | Inr a \<Rightarrow>
                    if ID (heap p a) \<noteq> wid then Some (Inr p)
                    else removeFromParent_loop 0 (lenTemp - 1) wid
                           (p\<lparr>temporaryWorker := Some (take 0 tw)\<rparr>))
             else removeFromParent_loop 0 (lenTemp - 1) wid p))"

section \<open>Sampling two workers\<close>

text \<open>
  \<^verbatim>\<open>Intn(n)\<close> panics for \<open>n \<le> 0\<close> and otherwise returns some value of \<open>[0, n)\<close>:
  the next value of the generator's stream, reduced into that range. Every sequence of
  results that \<^verbatim>\<open>Intn\<close> may produce is the image of some stream. Re-seeding
  \<^verbatim>\<open>p.randSource\<close> changes which values it produces; \<open>seededRand\<close> is the sequence
  of values it does produce, so \<^verbatim>\<open>Seed\<close> leaves the model's state as it is.
\<close>

definition seeded_Intn :: "int \<Rightarrow> Pool \<Rightarrow> panic + (int \<times> Pool)" where
  "seeded_Intn n p =
     (if n \<le> 0 then Inl InvalidIntnArgument
      else Inr (int (shd (seededRand p)) mod n, p\<lparr>seededRand := stl (seededRand p)\<rparr>))"

definition global_Intn :: "int \<Rightarrow> Pool \<Rightarrow> panic + (int \<times> Pool)" where
  "global_Intn n p =
     (if n \<le> 0 then Inl InvalidIntnArgument
      else Inr (int (shd (globalRand p)) mod n, p\<lparr>globalRand := stl (globalRand p)\<rparr>))"

text \<open>The loop \<^verbatim>\<open>for num1 == num2 { num2 = rand.Intn(num) }\<close>: it may run forever.\<close>

partial_function (option) getTwoNums_loop :: "int \<Rightarrow> int \<Rightarrow> int \<Rightarrow> Pool \<Rightarrow> (panic + (int \<times> Pool)) option" where
  "getTwoNums_loop num num1 num2 p =
     (if num1 = num2 then
        (case global_Intn num p of
           Inl e \<Rightarrow> Some (Inl e)
         | Inr (v, p') \<Rightarrow> getTwoNums_loop num num1 v p')
      else Some (Inr (num2, p)))"

definition getTwoNums :: "int \<Rightarrow> Pool \<Rightarrow> (int \<times> int \<times> Pool) outcome" where
  "getTwoNums num p =
     (case seeded_Intn num p of
        Inl e \<Rightarrow> Some (Inl e)
      | Inr (num1, p1) \<Rightarrow>
          (case seeded_Intn num p1 of
             Inl e \<Rightarrow> Some (Inl e)
           | Inr (num2, p2) \<Rightarrow>
               bind_outcome (getTwoNums_loop num num1 num2 p2)
                 (\<lambda>(num2', p3). Some (Inr (num1, num2', p3)))))"

definition getTwoWorker :: "int \<Rightarrow> addr list \<Rightarrow> Pool \<Rightarrow> (addr \<times> addr \<times> Pool) outcome" where
  "getTwoWorker num workers p =
     bind_outcome (getTwoNums num p)
       (\<lambda>(num1, num2, p1).
          case index_slice workers num1 of
            Inl e \<Rightarrow> Some (Inl e)
          | Inr w1 \<Rightarrow>
              (case index_slice workers num2 of
                 Inl e \<Rightarrow> Some (Inl e)
               | Inr w2 \<Rightarrow> Some (Inr (w1, w2, p1))))"

section \<open>The selectors\<close>

text \<open>
  \<^verbatim>\<open>atomic.CompareAndSwapInt64(&w.jobNum, old, new)\<close>: when the counter equals \<open>old\<close>
  it becomes \<open>new\<close> and the call returns true.
\<close>

definition CompareAndSwapInt64 :: "addr \<Rightarrow> int \<Rightarrow> int \<Rightarrow> Pool \<Rightarrow> bool \<times> Pool" where
  "CompareAndSwapInt64 a old new p =
     (if jobNum (heap p a) = old
      then (True, p\<lparr>heap := (heap p)(a := (heap p a)\<lparr>jobNum := new\<rparr>)\<rparr>)
      else (False, p))"

text \<open>
  The condition both selectors test on their two samples,
  \<^verbatim>\<open>CompareAndSwapInt64(&w1.jobNum, WorkerContent, w1.jobNum) && CompareAndSwapInt64(&w2.jobNum, WorkerContent, w2.jobNum)\<close>,
  with the short circuit of \<^verbatim>\<open>&&\<close>.
\<close>

definition both_at_content :: "addr \<Rightarrow> addr \<Rightarrow> Pool \<Rightarrow> bool \<times> Pool" where
  "both_at_content w1 w2 p =
     (let (b1, p1) = CompareAndSwapInt64 w1 (WorkerContent (conf p)) (jobNum (heap p w1)) p in
      if b1 then CompareAndSwapInt64 w2 (WorkerContent (conf p1)) (jobNum (heap p1 w2)) p1
      else (False, p1))"

definition getWorkerFromTemp :: "Pool \<Rightarrow> (addr option \<times> Pool) outcome" where
  "getWorkerFromTemp p =
     (case temporaryWorker p of
        None \<Rightarrow> Some (Inr (None, p\<lparr>temporaryWorker := Some []\<rparr>))
      | Some tw \<Rightarrow>
          if length tw = 0 then Some (Inr (None, p))
          else if length tw = 1 then
            (case index_slice tw 0 of
               Inl e \<Rightarrow> Some (Inl e)
             | Inr w \<Rightarrow>
                 (let (b, p1) = CompareAndSwapInt64 w (WorkerContent (conf p)) (jobNum (heap p w)) p in
                  if b \<or> IsBlocking w p1 then Some (Inr (None, p1))
                  else Some (Inr (Some w, p1))))
          else
            bind_outcome (getTwoWorker (int (length tw)) tw p)
              (\<lambda>(w1, w2, p1).
                 let (full, p2) = both_at_content w1 w2 p1 in
                 if full then Some (Inr (None, p2))
                 else if jobNum (heap p2 w1) < jobNum (heap p2 w2) then Some (Inr (Some w1, p2))
                 else Some (Inr (Some w2, p2))))"

definition getWorkFormEnternal :: "Pool \<Rightarrow> (addr option \<times> Pool) outcome" where
  "getWorkFormEnternal p =
     bind_outcome (getTwoWorker (WorkerNum (conf p)) (eternalWorker p) p)
       (\<lambda>(w1, w2, p1).
          let (full, p2) = both_at_content w1 w2 p1 in
          if full then Some (Inr (None, p2))
          else if jobNum (heap p2 w1) < jobNum (heap p2 w2) then Some (Inr (Some w1, p2))
          else Some (Inr (Some w2, p2)))"

section \<open>Retrying a selector\<close>

text \<open>\<^verbatim>\<open>w == nil || w.IsBlocking()\<close>\<close>

definition nil_or_blocking :: "addr option \<Rightarrow> Pool \<Rightarrow> bool" where
  "nil_or_blocking w p = (case w of None \<Rightarrow> True | Some a \<Rightarrow> IsBlocking a p)"

text \<open>
  The loop of \<^verbatim>\<open>getWorkStep\<close>: wait for the next tick, count it, call the selector;
  both \<^verbatim>\<open>continue\<close> statements and the fall-through lead to the next round.
\<close>

function getWorkStep_loop ::
  "int \<Rightarrow> int \<Rightarrow> int \<Rightarrow> (Pool \<Rightarrow> (addr option \<times> Pool) outcome) \<Rightarrow> addr option \<Rightarrow> Pool
     \<Rightarrow> (addr option \<times> Pool) outcome" where
  "getWorkStep_loop n num duration f w p =
     (if n < num then
        (case f (p\<lparr>clock := clock p + nat duration\<rparr>) of
           None \<Rightarrow> None
         | Some (Inl e) \<Rightarrow> Some (Inl e)
         | Some (Inr (w', p')) \<Rightarrow>
             if w' = None then getWorkStep_loop (n + 1) num duration f w' p'
             else if nil_or_blocking w' p' then getWorkStep_loop (n + 1) num duration f w' p'
             else getWorkStep_loop (n + 1) num duration f w' p')
      else Some (Inr (w, p)))"
  by pat_completeness auto
termination
  by (relation "measure (\<lambda>(n, num, duration, f, w, p). nat (num - n))") auto

declare getWorkStep_loop.simps [simp del]

text \<open>\<^verbatim>\<open>time.NewTicker\<close> panics on an interval that is not positive.\<close>

definition getWorkStep ::
  "int \<Rightarrow> int \<Rightarrow> (Pool \<Rightarrow> (addr option \<times> Pool) outcome) \<Rightarrow> Pool \<Rightarrow> (addr option \<times> Pool) outcome" where
  "getWorkStep num duration f p =
     (if duration \<le> 0 then Some (Inl NonPositiveTickerInterval)
      else getWorkStep_loop 0 num duration f None p)"

section \<open>Admission\<close>

definition newTempWorker :: "Pool \<Rightarrow> addr \<times> Pool" where
  "newTempWorker p =
     (let (w, p1) = newWorker (shd (uuids p)) (WorkerContent (conf p)) TEMPORARY
                      (p\<lparr>uuids := stl (uuids p)\<rparr>);
          p2 = p1\<lparr>wg := wg p1 + 1\<rparr>
      in (w, p2\<lparr>temporaryWorker := Some (slice_of (temporaryWorker p2) @ [w])\<rparr>))"

definition isClosed :: "Pool \<Rightarrow> bool" where
  "isClosed p = (isClose p = 1)"

definition DoJob :: "TaskContext \<Rightarrow> Pool \<Rightarrow> (bool \<times> Pool) outcome" where
  "DoJob job p =
     (if isClosed p then Some (Inr (False, p))
      else
        bind_outcome (getWorkFormEnternal p) (\<lambda>(w1, p1).
        bind_outcome (if nil_or_blocking w1 p1 then getWorkStep 3 1 getWorkFormEnternal p1
                      else Some (Inr (w1, p1))) (\<lambda>(w2, p2).
        bind_outcome (if nil_or_blocking w2 p2 then getWorkStep 3 1 getWorkerFromTemp p2
                      else Some (Inr (w2, p2))) (\<lambda>(w3, p3).
        let (w4, p4) = (if nil_or_blocking w3 p3
                        then (let (a, q) = newTempWorker p3 in (Some a, q))
                        else (w3, p3))
        in case w4 of
             None \<Rightarrow> Some (Inl NilDereference)
           | Some a \<Rightarrow> Some (Inr (sendJob a job p4))))))"

section \<open>Construction and shutdown\<close>

text \<open>The body of the loop of \<^verbatim>\<open>startPool\<close>, for the loop counter \<open>i\<close>.\<close>

definition startPool_body :: "int \<Rightarrow> Pool \<Rightarrow> Pool" where
  "startPool_body i p =
     (let wid = i + 1;
          (w, p1) = newWorker wid (WorkerContent (conf p)) ETERNAL p;
          p2 = p1\<lparr>wg := wg p1 + 1\<rparr>
      in p2\<lparr>eternalWorker := eternalWorker p2 @ [w]\<rparr>)"

function startPool_loop :: "int \<Rightarrow> Pool \<Rightarrow> Pool" where
  "startPool_loop i p =
     (if i < WorkerNum (conf p) then startPool_loop (i + 1) (startPool_body i p) else p)"
  by pat_completeness auto
termination
  by (relation "measure (\<lambda>(i, p). nat (WorkerNum (conf p) - i))")
    (auto simp: startPool_body_def newWorker_def Let_def)

declare startPool_loop.simps [simp del]

definition startPool :: "Pool \<Rightarrow> Pool" where
  "startPool p = (let p1 = startPool_loop 0 p in p1\<lparr>isClose := isClose p1 + 1\<rparr>)"

text \<open>
  \<^verbatim>\<open>NewPool(conf, wg)\<close>. The default configuration, which \<^verbatim>\<open>pool.go\<close> only names,
  is a parameter; the wait group is the runtime's.
\<close>

definition conf_or_default :: "TaskConf \<Rightarrow> TaskConf option \<Rightarrow> TaskConf" where
  "conf_or_default defaultConf c = (case c of None \<Rightarrow> defaultConf | Some x \<Rightarrow> x)"

definition NewPool :: "TaskConf \<Rightarrow> TaskConf option \<Rightarrow> runtime \<Rightarrow> panic + Pool" where
  "NewPool defaultConf c rt =
     (let c' = conf_or_default defaultConf c in
      if WorkerNum c' < 2 then Inl WorkerNumBelowTwo
      else Inr (startPool
        \<lparr>heap = heap rt, nextAddr = nextAddr rt, wg = wg rt, seededRand = seededRand rt,
         globalRand = globalRand rt, uuids = uuids rt, clock = clock rt,
         eternalWorker = [], cancelled = False, conf = c', isClose = 1,
         temporaryWorker = None\<rparr>))"

definition Close :: "Pool \<Rightarrow> Pool" where
  "Close p = (if isClosed p then p else p\<lparr>isClose := isClose p - 1, cancelled := True\<rparr>)"

section \<open>Runs of the pool\<close>

text \<open>
  What happens to a pool after its construction: a caller submits a job, a caller closes
  the pool, a worker unregisters an identity through the callback
  \<^verbatim>\<open>removeFromParent\<close>, a worker completes a job. Events come one at a time.
\<close>

datatype event = DoJobEv TaskContext | CloseEv | RemoveEv int | FinishEv addr

definition exec :: "event \<Rightarrow> Pool \<Rightarrow> Pool outcome" where
  "exec ev p =
     (case ev of
        DoJobEv job \<Rightarrow> bind_outcome (DoJob job p) (\<lambda>(ok, p'). Some (Inr p'))
      | CloseEv \<Rightarrow> Some (Inr (Close p))
      | RemoveEv wid \<Rightarrow> removeFromParent wid p
      | FinishEv a \<Rightarrow> Some (Inr (finishJob a p)))"

inductive reachable :: "Pool \<Rightarrow> bool" where
  init: "NewPool d c rt = Inr p \<Longrightarrow> reachable p"
| step: "reachable p \<Longrightarrow> exec ev p = Some (Inr p') \<Longrightarrow> reachable p'"


text \<open>The workers registered with the pool.\<close>

definition workers_of :: "Pool \<Rightarrow> addr set" where
  "workers_of p = set (eternalWorker p) \<union> set (slice_of (temporaryWorker p))"

text \<open>
  Two states that differ at most in the random values still to come, in the clock and
  in whether the empty temporary registry is nil.
\<close>

definition same_workers :: "Pool \<Rightarrow> Pool \<Rightarrow> bool" where
  "same_workers p p' \<longleftrightarrow>
     heap p' = heap p \<and> nextAddr p' = nextAddr p \<and> wg p' = wg p \<and> uuids p' = uuids p \<and>
     eternalWorker p' = eternalWorker p \<and> cancelled p' = cancelled p \<and> conf p' = conf p \<and>
     isClose p' = isClose p \<and>
     slice_of (temporaryWorker p') = slice_of (temporaryWorker p)"

text \<open>
  The resampling loop of \<^verbatim>\<open>getTwoNums\<close> ends when the second draw of the seeded
  source already differs from the first, or some later draw of the global source does.
\<close>

definition draws_differ :: "int \<Rightarrow> Pool \<Rightarrow> bool" where
  "draws_differ num p \<longleftrightarrow>
     int (shd (stl (seededRand p))) mod num \<noteq> int (shd (seededRand p)) mod num \<or>
     (\<exists>k. int (globalRand p !! k) mod num \<noteq> int (shd (seededRand p)) mod num)"

text \<open>
  The global generator does not return the same index of \<open>[0, num)\<close> for ever: two
  of its values differ modulo \<open>num\<close>.
\<close>

definition source_varies :: "int \<Rightarrow> nat stream \<Rightarrow> bool" where
  "source_varies num s \<longleftrightarrow> (\<exists>i j. int (s !! i) mod num \<noteq> int (s !! j) mod num)"

text \<open>Each registry lists distinct workers, all of them allocated.\<close>

definition registries_fresh :: "Pool \<Rightarrow> bool" where
  "registries_fresh p \<longleftrightarrow>
     distinct (eternalWorker p) \<and> distinct (slice_of (temporaryWorker p)) \<and>
     (\<forall>a \<in> workers_of p. a < nextAddr p)"

text \<open>
  Every registered worker holds between 0 and its capacity many jobs, and its capacity
  is the configured one.
\<close>

definition load_bounded :: "Pool \<Rightarrow> bool" where
  "load_bounded p \<longleftrightarrow>
     (\<forall>a \<in> workers_of p.
        0 \<le> jobNum (heap p a) \<and> jobNum (heap p a) \<le> content (heap p a) \<and>
        content (heap p a) = WorkerContent (conf p))"

text \<open>The flag is 2 (open), or it is 1 (closed) and the master context is cancelled.\<close>

definition flag_inv :: "Pool \<Rightarrow> bool" where
  "flag_inv p \<longleftrightarrow> isClose p = 2 \<or> (isClose p = 1 \<and> cancelled p)"

text \<open>What every step of a run keeps.\<close>

definition step_ok :: "Pool \<Rightarrow> Pool \<Rightarrow> bool" where
  "step_ok p p' \<longleftrightarrow>
     conf p' = conf p \<and> (flag_inv p \<longrightarrow> flag_inv p') \<and> (isClosed p \<longrightarrow> isClosed p') \<and>
     (0 \<le> WorkerContent (conf p) \<and> load_bounded p \<longrightarrow> load_bounded p')"

text \<open>
  The choice both selectors make between their two samples: nil when both counters
  equal the capacity, else the first sample when its counter is strictly smaller, else
  the second.
\<close>

definition p2c_choice :: "addr \<Rightarrow> addr \<Rightarrow> Pool \<Rightarrow> addr option" where
  "p2c_choice w1 w2 p =
     (if jobNum (heap p w1) = WorkerContent (conf p) \<and> jobNum (heap p w2) = WorkerContent (conf p)
      then None
      else if jobNum (heap p w1) < jobNum (heap p w2) then Some w1 else Some w2)"

text \<open>
  The choice in the spec's words: nil when both samples are at or above capacity,
  otherwise a sample whose counter is the smaller one, ties going either way.
\<close>

definition p2c_spec :: "addr \<Rightarrow> addr \<Rightarrow> Pool \<Rightarrow> addr option \<Rightarrow> bool" where
  "p2c_spec w1 w2 p r \<longleftrightarrow>
     (if WorkerContent (conf p) \<le> jobNum (heap p w1) \<and> WorkerContent (conf p) \<le> jobNum (heap p w2)
      then r = None
      else (r = Some w1 \<and> jobNum (heap p w1) \<le> jobNum (heap p w2)) \<or>
           (r = Some w2 \<and> jobNum (heap p w2) \<le> jobNum (heap p w1)))"

text \<open>
  The outcome of a selector that sampled two distinct indices of the registry \<open>ws\<close>
  and chose as the spec says, leaving workers, registries and flags as they were.
\<close>

definition two_sampled_spec :: "addr list \<Rightarrow> Pool \<Rightarrow> (addr option \<times> Pool) outcome \<Rightarrow> bool" where
  "two_sampled_spec ws p out \<longleftrightarrow>
     (\<exists>i j r p'. out = Some (Inr (r, p')) \<and> i < length ws \<and> j < length ws \<and> i \<noteq> j \<and>
        p2c_spec (ws ! i) (ws ! j) p r \<and> same_workers p p')"

text \<open>
  The same with the choice the code makes.
\<close>

definition two_sampled :: "addr list \<Rightarrow> Pool \<Rightarrow> (addr option \<times> Pool) outcome \<Rightarrow> bool" where
  "two_sampled ws p out \<longleftrightarrow>
     (\<exists>i j p'. out = Some (Inr (p2c_choice (ws ! i) (ws ! j) p, p')) \<and>
        i < length ws \<and> j < length ws \<and> i \<noteq> j \<and> same_workers p p')"

text \<open>What a run of the resampling loop that ends has established.\<close>

definition loop_post :: "int \<Rightarrow> int \<Rightarrow> int \<Rightarrow> Pool \<Rightarrow> panic + (int \<times> Pool) \<Rightarrow> bool" where
  "loop_post num num1 num2 p y =
     (case y of
        Inl e \<Rightarrow> num \<le> 0
      | Inr (v, p') \<Rightarrow>
          v \<noteq> num1 \<and> same_workers p p' \<and> seededRand p' = seededRand p \<and>
          ((0 \<le> v \<and> v < num) \<or> v = num2))"

section \<open>Example states\<close>

definition rt0 :: runtime where
  "rt0 = \<lparr>heap = (\<lambda>_. \<lparr>ID = 0, jobNum = 0, Blocking = 0, content = 0, wtype = ETERNAL\<rparr>),
          nextAddr = 0, wg = 0, seededRand = 0 ## 1 ## sconst 0, globalRand = siterate Suc 0,
          uuids = 10 ## 20 ## 30 ## sconst 40, clock = 0\<rparr>"

definition conf0 :: TaskConf where
  "conf0 = \<lparr>WorkerNum = 2, WorkerContent = 1, ExpTime = 5\<rparr>"

text \<open>The pool that \<open>NewPool\<close> builds from \<open>conf0\<close> in \<open>rt0\<close>.\<close>

definition pool0 :: Pool where
  "pool0 =
     \<lparr>heap = (heap rt0)
        (0 := \<lparr>ID = 1, jobNum = 0, Blocking = 0, content = 1, wtype = ETERNAL\<rparr>,
         1 := \<lparr>ID = 2, jobNum = 0, Blocking = 0, content = 1, wtype = ETERNAL\<rparr>),
      nextAddr = 2, wg = 2, seededRand = seededRand rt0, globalRand = globalRand rt0,
      uuids = uuids rt0, clock = 0, eternalWorker = [0, 1], cancelled = False,
      conf = conf0, isClose = 2, temporaryWorker = None\<rparr>"

text \<open>
  \<open>pool0\<close> after one temporary worker was spawned, and the same state with that
  worker's backpressure flag set while it holds no job.
\<close>

definition one_temp :: Pool where
  "one_temp = snd (newTempWorker pool0)"

definition stale_flag :: Pool where
  "stale_flag = one_temp\<lparr>heap := (heap one_temp)(2 := (heap one_temp 2)\<lparr>Blocking := 1\<rparr>)\<rparr>"

text \<open>\<open>pool0\<close> after \<^verbatim>\<open>DoJob\<close> admitted one job: the second eternal worker holds it.\<close>

definition busy_pool :: Pool where
  "busy_pool = pool0\<lparr>heap := (heap pool0)(1 := (heap pool0 1)\<lparr>jobNum := 1\<rparr>),
                      seededRand := sconst 0\<rparr>"

text \<open>\<open>pool0\<close> after two, and after three, temporary workers were spawned.\<close>

definition two_temps :: Pool where
  "two_temps = snd (newTempWorker (snd (newTempWorker pool0)))"

definition three_temps :: Pool where
  "three_temps = snd (newTempWorker two_temps)"

section \<open>Slices and compare-and-swap\<close>

lemma index_slice_neg: "i < 0 \<Longrightarrow> index_slice xs i = Inl IndexOutOfRange"
  by (simp add: index_slice_def)

lemma index_slice_Inr:
  "0 \<le> i \<Longrightarrow> i < int (length xs) \<Longrightarrow> index_slice xs i = Inr (xs ! nat i)"
  by (simp add: index_slice_def)

lemma bind_outcome_Inr:
  "bind_outcome m k = Some (Inr r) \<longleftrightarrow> (\<exists>v. m = Some (Inr v) \<and> k v = Some (Inr r))"
  by (auto simp: bind_outcome_def split: option.splits sum.splits)

lemma bind_outcome_simps:
  "bind_outcome None k = None"
  "bind_outcome (Some (Inl e)) k = Some (Inl e)"
  "bind_outcome (Some (Inr v)) k = k v"
  by (simp_all add: bind_outcome_def)

text \<open>
  Both selectors hand \<^verbatim>\<open>CompareAndSwapInt64\<close> the counter's own value as the new
  value: the call tests the counter for equality with the capacity and changes nothing.
\<close>

lemma CompareAndSwapInt64_same:
  "CompareAndSwapInt64 a old (jobNum (heap p a)) p = (jobNum (heap p a) = old, p)"
  by (auto simp: CompareAndSwapInt64_def)

lemma both_at_content_eq:
  "both_at_content w1 w2 p =
     (jobNum (heap p w1) = WorkerContent (conf p) \<and> jobNum (heap p w2) = WorkerContent (conf p), p)"
  by (simp add: both_at_content_def CompareAndSwapInt64_same)

lemma same_workers_refl: "same_workers p p"
  by (simp add: same_workers_def)

lemma same_workers_trans: "same_workers p q \<Longrightarrow> same_workers q r \<Longrightarrow> same_workers p r"
  by (simp add: same_workers_def)

section \<open>The example states\<close>

lemma NewPool_example: "NewPool d (Some conf0) rt0 = Inr pool0"
  by (simp add: NewPool_def conf_or_default_def conf0_def rt0_def pool0_def startPool_def
      startPool_loop.simps startPool_body_def newWorker_def Let_def)

lemma one_temp_registry: "temporaryWorker one_temp = Some [2]"
  by (simp add: one_temp_def pool0_def newTempWorker_def newWorker_def slice_of_def Let_def)

lemma one_temp_worker:
  "heap one_temp 2 = \<lparr>ID = 10, jobNum = 0, Blocking = 0, content = 1, wtype = TEMPORARY\<rparr>"
  "WorkerContent (conf one_temp) = 1"
  by (simp_all add: one_temp_def pool0_def rt0_def conf0_def newTempWorker_def newWorker_def
      slice_of_def Let_def)

lemma two_temps_registry: "temporaryWorker two_temps = Some [2, 3]"
  by (simp add: two_temps_def pool0_def newTempWorker_def newWorker_def slice_of_def Let_def)

lemma two_temps_ids: "map (\<lambda>a. ID (heap two_temps a)) [2, 3] = [10, 20]"
  by (simp add: two_temps_def pool0_def rt0_def newTempWorker_def newWorker_def slice_of_def
      Let_def)

lemma three_temps_registry: "temporaryWorker three_temps = Some [2, 3, 4]"
  by (simp add: three_temps_def two_temps_def pool0_def newTempWorker_def newWorker_def
      slice_of_def Let_def)

lemma three_temps_ids: "map (\<lambda>a. ID (heap three_temps a)) [2, 3, 4] = [10, 20, 30]"
  by (simp add: three_temps_def two_temps_def pool0_def rt0_def newTempWorker_def newWorker_def
      slice_of_def Let_def)

section \<open>What removeFromParent does\<close>

lemma sdiv_neg_two: "2 \<le> n \<Longrightarrow> (- n) sdiv (2::int) < 0"
  by (simp add: signed_divide_int_def sgn_if)

lemma removeFromParent_nil:
  "temporaryWorker p = None \<Longrightarrow> removeFromParent wid p = Some (Inr p)"
  by (simp add: removeFromParent_def)

lemma removeFromParent_empty:
  "temporaryWorker p = Some [] \<Longrightarrow> removeFromParent wid p = Some (Inr p)"
  by (simp add: removeFromParent_def)

lemma removeFromParent_one:
  "temporaryWorker p = Some [a] \<Longrightarrow>
   removeFromParent wid p =
     Some (Inr (if ID (heap p a) = wid then p\<lparr>temporaryWorker := Some []\<rparr> else p))"
  by (simp add: removeFromParent_def index_slice_def removeFromParent_loop.simps)

text \<open>
  With two workers registered the only probe is index 0: the second worker is never
  compared, whatever its identity.
\<close>

lemma removeFromParent_two:
  "temporaryWorker p = Some [a, b] \<Longrightarrow>
   removeFromParent wid p =
     Some (Inr (if ID (heap p a) = wid then p\<lparr>temporaryWorker := Some [b]\<rparr> else p))"
  by (simp add: removeFromParent_def removeFromParent_loop.simps [of 0 1]
      removeFromParent_loop.simps [of 1 1] removeFromParent_loop.simps [of 0 "- 1"]
      index_slice_def slice_of_def signed_divide_int_def Let_def)

text \<open>With three or more workers registered the first probe is negative.\<close>

lemma removeFromParent_three:
  assumes "temporaryWorker p = Some tw" "3 \<le> length tw"
  shows "removeFromParent wid p = Some (Inl IndexOutOfRange)"
proof -
  have "(0 - (int (length tw) - 1)) sdiv 2 < 0"
    using assms(2) sdiv_neg_two [of "int (length tw) - 1"] by simp
  then have "index_slice tw (0 + (0 - (int (length tw) - 1)) sdiv 2) = Inl IndexOutOfRange"
    by (simp add: index_slice_def)
  then show ?thesis
    using assms
    by (auto simp add: removeFromParent_def removeFromParent_loop.simps [of 0] slice_of_def
        Let_def)
qed

text \<open>
  C4 (the code does not do this). \<^verbatim>\<open>removeFromParent(id)\<close> should remove the worker
  with identity \<open>id\<close> wherever it stands in the temporary registry. With the two
  workers of identities 10 and 20 registered in this order, \<^verbatim>\<open>removeFromParent(20)\<close>
  returns and leaves the registry as it was.
\<close>

theorem removeFromParent_misses_second:
  "removeFromParent 20 two_temps = Some (Inr two_temps) \<and>
   temporaryWorker two_temps = Some [2, 3] \<and>
   map (\<lambda>a. ID (heap two_temps a)) [2, 3] = [10, 20]"
  using removeFromParent_two [OF two_temps_registry, of 20] two_temps_registry two_temps_ids
  by simp

text \<open>
  C10 (the code does not do this). \<^verbatim>\<open>removeFromParent\<close> should index the registry
  within its bounds only. With three temporary workers registered the first probe is
  \<open>0 + (0 - 2) / 2 = -1\<close>, and the call panics with an index out of range.
\<close>

theorem removeFromParent_probe_out_of_range:
  "removeFromParent 20 three_temps = Some (Inl IndexOutOfRange) \<and>
   temporaryWorker three_temps = Some [2, 3, 4] \<and>
   map (\<lambda>a. ID (heap three_temps a)) [2, 3, 4] = [10, 20, 30]"
  using removeFromParent_three [OF three_temps_registry, of 20] three_temps_registry
    three_temps_ids
  by simp

section \<open>A closed pool rejects\<close>

text \<open>
  C1. On a closed pool \<^verbatim>\<open>DoJob\<close> returns false at once and the state is the one it
  was called in: no worker selected (no random value drawn), no temporary worker
  spawned, no worker changed.
\<close>

theorem DoJob_closed_rejects:
  "isClosed p \<Longrightarrow> DoJob job p = Some (Inr (False, p))"
  by (simp add: DoJob_def)

theorem DoJob_closed_rejects_witness:
  "isClosed (Close pool0) \<and> DoJob 7 (Close pool0) = Some (Inr (False, Close pool0))"
proof -
  have closed: "isClosed (Close pool0)"
    by (simp add: Close_def isClosed_def pool0_def)
  from DoJob_closed_rejects [OF closed, of 7] closed show ?thesis by simp
qed

section \<open>The selector on a single temporary worker\<close>

lemma getWorkerFromTemp_one:
  "temporaryWorker p = Some [a] \<Longrightarrow>
   getWorkerFromTemp p =
     Some (Inr (if jobNum (heap p a) = WorkerContent (conf p) \<or> IsBlocking a p then None
                else Some a, p))"
  by (simp add: getWorkerFromTemp_def index_slice_def CompareAndSwapInt64_same)

text \<open>
  C7, as the code has it. On a temporary registry of exactly one worker
  \<^verbatim>\<open>getWorkerFromTemp\<close> returns that worker when its \<open>jobNum\<close> differs from the
  capacity and its backpressure flag is clear, and nil otherwise. The state it returns
  is the state it was called in: no random value is drawn, so the two-sample path is
  not taken.
\<close>

theorem getWorkerFromTemp_single:
  "temporaryWorker p = Some [a] \<Longrightarrow>
   getWorkerFromTemp p =
     Some (Inr (if jobNum (heap p a) = WorkerContent (conf p) \<or> IsBlocking a p then None
                else Some a, p))"
  by (rule getWorkerFromTemp_one)

theorem getWorkerFromTemp_single_witness:
  "temporaryWorker one_temp = Some [2] \<and>
   getWorkerFromTemp one_temp = Some (Inr (Some 2, one_temp))"
  using getWorkerFromTemp_single [OF one_temp_registry] one_temp_registry one_temp_worker
  by (simp add: IsBlocking_def)

text \<open>
  The claim as the spec words it fails: a single worker whose \<open>jobNum\<close> is strictly
  below its capacity is not returned while its backpressure flag is set.
\<close>

theorem getWorkerFromTemp_single_blocking:
  "temporaryWorker stale_flag = Some [2] \<and>
   jobNum (heap stale_flag 2) < WorkerContent (conf stale_flag) \<and>
   getWorkerFromTemp stale_flag = Some (Inr (None, stale_flag))"
proof -
  have reg: "temporaryWorker stale_flag = Some [2]"
    using one_temp_registry by (simp add: stale_flag_def)
  have w: "jobNum (heap stale_flag 2) = 0" "Blocking (heap stale_flag 2) = 1"
    "WorkerContent (conf stale_flag) = 1"
    using one_temp_worker by (simp_all add: stale_flag_def)
  have "getWorkerFromTemp stale_flag = Some (Inr (None, stale_flag))"
    using w getWorkerFromTemp_one [OF reg] by (simp add: IsBlocking_def)
  with reg w show ?thesis by simp
qed

section \<open>The retry loop\<close>

text \<open>
  C3. \<^verbatim>\<open>getWorkStep(3, 1, f)\<close> waits one second and calls the selector, three times
  over, and its result is the third call's result, whatever the first two calls
  returned: a worker found earlier is dropped, and a nil or blocking third result is
  returned as it is. (A call that panics or does not return ends the loop.)
\<close>

theorem getWorkStep_three_attempts:
  "getWorkStep 3 1 f p =
     bind_outcome (f (p\<lparr>clock := clock p + 1\<rparr>)) (\<lambda>(w1, p1).
     bind_outcome (f (p1\<lparr>clock := clock p1 + 1\<rparr>)) (\<lambda>(w2, p2).
     f (p2\<lparr>clock := clock p2 + 1\<rparr>)))"
  by (simp add: getWorkStep_def getWorkStep_loop.simps bind_outcome_def
      split: option.splits sum.splits prod.splits)

text \<open>An earlier success does not end the loop: the third, empty result is returned.\<close>

lemma getWorkStep_drops_earlier_worker:
  assumes "f (p\<lparr>clock := clock p + 1\<rparr>) = Some (Inr (Some a, p1))" "\<not> IsBlocking a p1"
    and "f (p1\<lparr>clock := clock p1 + 1\<rparr>) = Some (Inr (w2, p2))"
    and "f (p2\<lparr>clock := clock p2 + 1\<rparr>) = Some (Inr (None, p3))"
  shows "getWorkStep 3 1 f p = Some (Inr (None, p3))"
  using assms by (simp add: getWorkStep_def getWorkStep_loop.simps)

section \<open>Construction\<close>

lemma startPool_body_fields:
  "conf (startPool_body i p) = conf p" "isClose (startPool_body i p) = isClose p"
  "cancelled (startPool_body i p) = cancelled p"
  "temporaryWorker (startPool_body i p) = temporaryWorker p"
  "length (eternalWorker (startPool_body i p)) = Suc (length (eternalWorker p))"
  "wg (startPool_body i p) = wg p + 1"
  by (simp_all add: startPool_body_def newWorker_def Let_def)

lemma load_bounded_cong:
  "heap q = heap p \<Longrightarrow> conf q = conf p \<Longrightarrow> eternalWorker q = eternalWorker p \<Longrightarrow>
   slice_of (temporaryWorker q) = slice_of (temporaryWorker p) \<Longrightarrow>
   load_bounded q = load_bounded p"
  by (simp add: load_bounded_def workers_of_def)

lemma load_bounded_alloc:
  assumes "load_bounded p" "0 \<le> WorkerContent (conf p)"
    and "heap q = (heap p)(a := w)" "jobNum w = 0" "content w = WorkerContent (conf p)"
    and "conf q = conf p" "workers_of q \<subseteq> insert a (workers_of p)"
  shows "load_bounded q"
  unfolding load_bounded_def
proof
  fix b assume "b \<in> workers_of q"
  with assms(7) have b: "b = a \<or> (b \<noteq> a \<and> b \<in> workers_of p)" by auto
  show "0 \<le> jobNum (heap q b) \<and> jobNum (heap q b) \<le> content (heap q b) \<and>
        content (heap q b) = WorkerContent (conf q)"
  proof (cases "b = a")
    case True
    with assms(2-6) show ?thesis by simp
  next
    case False
    with b have "b \<in> workers_of p" by simp
    with assms(1) have "0 \<le> jobNum (heap p b) \<and> jobNum (heap p b) \<le> content (heap p b) \<and>
        content (heap p b) = WorkerContent (conf p)"
      unfolding load_bounded_def by blast
    with False assms(3,6) show ?thesis by simp
  qed
qed

lemma load_bounded_startPool_body:
  "0 \<le> WorkerContent (conf p) \<Longrightarrow> load_bounded p \<Longrightarrow> load_bounded (startPool_body i p)"
  by (erule load_bounded_alloc [rotated, where a = "nextAddr p"])
    (auto simp: startPool_body_def newWorker_def Let_def workers_of_def)

lemma startPool_loop_fields:
  "conf (startPool_loop i p) = conf p \<and> isClose (startPool_loop i p) = isClose p \<and>
   cancelled (startPool_loop i p) = cancelled p \<and>
   temporaryWorker (startPool_loop i p) = temporaryWorker p"
proof (induction i p rule: startPool_loop.induct)
  case (1 i p)
  show ?case
  proof (cases "i < WorkerNum (conf p)")
    case True
    with 1 [OF True] show ?thesis
      by (subst (1 2 3 4) startPool_loop.simps) (simp add: startPool_body_fields)
  next
    case False
    then show ?thesis by (simp add: startPool_loop.simps)
  qed
qed

lemma startPool_loop_count:
  "i \<le> WorkerNum (conf p) \<Longrightarrow>
   int (length (eternalWorker (startPool_loop i p))) =
     int (length (eternalWorker p)) + (WorkerNum (conf p) - i) \<and>
   wg (startPool_loop i p) = wg p + (WorkerNum (conf p) - i)"
proof (induction i p rule: startPool_loop.induct)
  case (1 i p)
  show ?case
  proof (cases "i < WorkerNum (conf p)")
    case True
    with 1(1) [OF True] show ?thesis
      by (subst (1 2) startPool_loop.simps) (simp add: startPool_body_fields)
  next
    case False
    with 1(2) show ?thesis by (simp add: startPool_loop.simps)
  qed
qed

lemma load_bounded_startPool_loop:
  "0 \<le> WorkerContent (conf p) \<Longrightarrow> load_bounded p \<Longrightarrow> load_bounded (startPool_loop i p)"
proof (induction i p rule: startPool_loop.induct)
  case (1 i p)
  show ?case
  proof (cases "i < WorkerNum (conf p)")
    case True
    have "load_bounded (startPool_loop (i + 1) (startPool_body i p))"
      using 1(2,3) by (intro 1(1) [OF True] load_bounded_startPool_body)
        (simp_all add: startPool_body_fields)
    with True show ?thesis
      by (subst startPool_loop.simps) simp
  next
    case False
    with 1(3) show ?thesis by (simp add: startPool_loop.simps)
  qed
qed

lemma NewPool_panics:
  "WorkerNum (conf_or_default d c) < 2 \<Longrightarrow> NewPool d c rt = Inl WorkerNumBelowTwo"
  by (simp add: NewPool_def)

lemma NewPool_returns:
  assumes "2 \<le> WorkerNum (conf_or_default d c)"
  shows "\<exists>p. NewPool d c rt = Inr p \<and> conf p = conf_or_default d c \<and>
           int (length (eternalWorker p)) = WorkerNum (conf_or_default d c) \<and>
           wg p = wg rt + WorkerNum (conf_or_default d c) \<and>
           isClose p = 2 \<and> \<not> cancelled p \<and> temporaryWorker p = None \<and>
           (0 \<le> WorkerContent (conf_or_default d c) \<longrightarrow> load_bounded p)"
proof -
  define p0 where "p0 = \<lparr>heap = heap rt, nextAddr = nextAddr rt, wg = wg rt, seededRand = seededRand rt,
         globalRand = globalRand rt, uuids = uuids rt, clock = clock rt,
         eternalWorker = [], cancelled = False, conf = conf_or_default d c, isClose = 1,
         temporaryWorker = None\<rparr>"
  have np: "NewPool d c rt = Inr (startPool p0)"
    using assms by (simp add: NewPool_def p0_def)
  have le: "0 \<le> WorkerNum (conf p0)" using assms by (simp add: p0_def)
  have lb0: "load_bounded p0" by (simp add: load_bounded_def workers_of_def p0_def slice_of_def)
  have "load_bounded (startPool p0) = load_bounded (startPool_loop 0 p0)"
    by (rule load_bounded_cong) (simp_all add: startPool_def Let_def)
  then have lb: "0 \<le> WorkerContent (conf p0) \<longrightarrow> load_bounded (startPool p0)"
    using load_bounded_startPool_loop [of p0 0] lb0 by simp
  show ?thesis
    using np startPool_loop_fields [of 0 p0] startPool_loop_count [OF le] lb
    by (simp add: startPool_def Let_def p0_def)
qed

text \<open>
  C5. With a configured worker count below 2 (the configuration given, or the default
  one when none is given) \<^verbatim>\<open>NewPool\<close> panics and no pool exists; with a count of at
  least 2 it returns a pool whose eternal registry holds exactly that many workers, with
  the wait group raised once for each, and the pool is open.
\<close>

theorem NewPool_worker_count:
  "(WorkerNum (conf_or_default d c) < 2 \<longrightarrow> NewPool d c rt = Inl WorkerNumBelowTwo) \<and>
   (2 \<le> WorkerNum (conf_or_default d c) \<longrightarrow>
      (\<exists>p. NewPool d c rt = Inr p \<and>
           int (length (eternalWorker p)) = WorkerNum (conf_or_default d c) \<and>
           wg p = wg rt + WorkerNum (conf_or_default d c) \<and>
           \<not> isClosed p))"
proof (intro conjI impI)
  assume "WorkerNum (conf_or_default d c) < 2"
  then show "NewPool d c rt = Inl WorkerNumBelowTwo" by (rule NewPool_panics)
next
  assume "2 \<le> WorkerNum (conf_or_default d c)"
  from NewPool_returns [OF this, of rt]
  show "\<exists>p. NewPool d c rt = Inr p \<and>
           int (length (eternalWorker p)) = WorkerNum (conf_or_default d c) \<and>
           wg p = wg rt + WorkerNum (conf_or_default d c) \<and>
           \<not> isClosed p"
    by (auto simp: isClosed_def)
qed

theorem NewPool_worker_count_witness:
  "WorkerNum (conf_or_default conf0 (Some (conf0\<lparr>WorkerNum := 1\<rparr>))) < 2 \<and>
   NewPool conf0 (Some (conf0\<lparr>WorkerNum := 1\<rparr>)) rt0 = Inl WorkerNumBelowTwo \<and>
   2 \<le> WorkerNum (conf_or_default conf0 None) \<and>
   NewPool conf0 None rt0 = Inr pool0 \<and> int (length (eternalWorker pool0)) = 2 \<and>
   \<not> isClosed pool0"
  using NewPool_worker_count [of conf0 "Some (conf0\<lparr>WorkerNum := 1\<rparr>)" rt0]
    NewPool_worker_count [of conf0 None rt0] NewPool_example [of conf0]
  by (simp add: conf_or_default_def conf0_def pool0_def isClosed_def NewPool_def)

section \<open>Sampling two indices\<close>

lemma global_Intn_range:
  "global_Intn num p = Inr (v, p') \<Longrightarrow>
   0 \<le> v \<and> v < num \<and> same_workers p p' \<and> seededRand p' = seededRand p"
  by (auto simp: global_Intn_def same_workers_def split: if_splits)

lemma getTwoNums_loop_result:
  "getTwoNums_loop num num1 num2 p = Some y \<Longrightarrow> loop_post num num1 num2 p y"
proof (induct rule: getTwoNums_loop.raw_induct [rotated 1, consumes 1, case_names step])
  case (step loop n a b q r)
  show ?case
  proof (cases "a = b")
    case False
    with step(2) show ?thesis by (auto simp: loop_post_def same_workers_refl)
  next
    case True
    show ?thesis
    proof (cases "global_Intn n q")
      case (Inl e)
      with True step(2) show ?thesis
        by (auto simp: loop_post_def global_Intn_def split: if_splits)
    next
      case (Inr vp)
      obtain v q' where vp: "vp = (v, q')" by (cases vp)
      from True Inr vp step(2) have call: "loop n a v q' = Some r" by simp
      from Inr vp have g: "0 \<le> v \<and> v < n \<and> same_workers q q' \<and> seededRand q' = seededRand q"
        using global_Intn_range by blast
      have post: "loop_post n a v q' r" by (rule step(1) [OF call])
      show ?thesis
      proof (cases r)
        case (Inl e)
        with post show ?thesis by (simp add: loop_post_def)
      next
        case (Inr wp)
        obtain w p' where wp: "wp = (w, p')" by (cases wp)
        from post Inr wp have "w \<noteq> a" "same_workers q' p'" "seededRand p' = seededRand q'"
          "(0 \<le> w \<and> w < n) \<or> w = v"
          by (simp_all add: loop_post_def)
        with g Inr wp show ?thesis
          using same_workers_trans [of q q' p'] by (auto simp add: loop_post_def)
      qed
    qed
  qed
qed

text \<open>The loop ends as soon as the global source yields an index other than the first.\<close>

lemma getTwoNums_loop_returns:
  assumes "0 < num" "int (globalRand p !! k) mod num \<noteq> num1"
  shows "\<exists>v p'. getTwoNums_loop num num1 num2 p = Some (Inr (v, p'))"
  using assms
proof (induction k arbitrary: p num2)
  case 0
  show ?case
  proof (cases "num1 = num2")
    case False
    then show ?thesis by (subst getTwoNums_loop.simps) simp
  next
    case True
    from 0 have "getTwoNums_loop num num1 (int (shd (globalRand p)) mod num)
                   (p\<lparr>globalRand := stl (globalRand p)\<rparr>)
                 = Some (Inr (int (shd (globalRand p)) mod num, p\<lparr>globalRand := stl (globalRand p)\<rparr>))"
      by (subst getTwoNums_loop.simps) simp
    with True 0 show ?thesis
      by (subst getTwoNums_loop.simps) (simp add: global_Intn_def)
  qed
next
  case (Suc k)
  show ?case
  proof (cases "num1 = num2")
    case False
    then show ?thesis by (subst getTwoNums_loop.simps) simp
  next
    case True
    from Suc.prems have "int (globalRand (p\<lparr>globalRand := stl (globalRand p)\<rparr>) !! k) mod num \<noteq> num1"
      by simp
    from Suc.IH [OF Suc.prems(1) this]
    obtain v p' where "getTwoNums_loop num num1 (int (shd (globalRand p)) mod num)
                   (p\<lparr>globalRand := stl (globalRand p)\<rparr>) = Some (Inr (v, p'))"
      by blast
    with True Suc.prems show ?thesis
      by (subst getTwoNums_loop.simps) (simp add: global_Intn_def)
  qed
qed

lemma getTwoNums_result:
  assumes "getTwoNums num p = Some (Inr (a, b, p'))"
  shows "0 < num \<and> a \<noteq> b \<and> 0 \<le> a \<and> a < num \<and> 0 \<le> b \<and> b < num \<and> same_workers p p'"
proof -
  from assms have num: "0 < num"
    by (auto simp: getTwoNums_def seeded_Intn_def split: if_splits)
  define p2 where "p2 = p\<lparr>seededRand := stl (stl (seededRand p))\<rparr>"
  define n1 where "n1 = int (shd (seededRand p)) mod num"
  define n2 where "n2 = int (shd (stl (seededRand p))) mod num"
  from assms num have "bind_outcome (getTwoNums_loop num n1 n2 p2)
      (\<lambda>(num2', p3). Some (Inr (n1, num2', p3))) = Some (Inr (a, b, p'))"
    by (simp add: getTwoNums_def seeded_Intn_def p2_def n1_def n2_def)
  then have loop: "getTwoNums_loop num n1 n2 p2 = Some (Inr (b, p'))" and a: "a = n1"
    by (auto simp: bind_outcome_Inr)
  from getTwoNums_loop_result [OF loop]
  have "b \<noteq> n1" "same_workers p2 p'" "(0 \<le> b \<and> b < num) \<or> b = n2"
    by (simp_all add: loop_post_def)
  moreover have "same_workers p p2" by (simp add: same_workers_def p2_def)
  moreover from num have "0 \<le> n1" "n1 < num" "0 \<le> n2" "n2 < num"
    by (simp_all add: n1_def n2_def)
  ultimately show ?thesis
    using num a same_workers_trans [of p p2 p'] by auto
qed

lemma getTwoNums_returns:
  assumes "0 < num" "draws_differ num p"
  shows "\<exists>a b p'. getTwoNums num p = Some (Inr (a, b, p'))"
proof -
  define p2 where "p2 = p\<lparr>seededRand := stl (stl (seededRand p))\<rparr>"
  define n1 where "n1 = int (shd (seededRand p)) mod num"
  define n2 where "n2 = int (shd (stl (seededRand p))) mod num"
  have eq: "getTwoNums num p = bind_outcome (getTwoNums_loop num n1 n2 p2)
      (\<lambda>(num2', p3). Some (Inr (n1, num2', p3)))"
    using assms(1) by (simp add: getTwoNums_def seeded_Intn_def p2_def n1_def n2_def)
  have "\<exists>v p'. getTwoNums_loop num n1 n2 p2 = Some (Inr (v, p'))"
  proof (cases "n2 = n1")
    case False
    then show ?thesis by (subst getTwoNums_loop.simps) simp
  next
    case True
    with assms(2) obtain k where "int (globalRand p !! k) mod num \<noteq> n1"
      by (auto simp: draws_differ_def n1_def n2_def)
    then have "int (globalRand p2 !! k) mod num \<noteq> n1" by (simp add: p2_def)
    from getTwoNums_loop_returns [OF assms(1) this] show ?thesis .
  qed
  then show ?thesis by (auto simp: eq bind_outcome_simps)
qed

section \<open>Sampling two workers and choosing\<close>

lemma getTwoWorker_returns:
  assumes "0 < num" "draws_differ num p" "int (length workers) = num"
  shows "\<exists>n1 n2 p'. getTwoNums num p = Some (Inr (n1, n2, p')) \<and>
           n1 \<noteq> n2 \<and> 0 \<le> n1 \<and> n1 < num \<and> 0 \<le> n2 \<and> n2 < num \<and> same_workers p p' \<and>
           getTwoWorker num workers p = Some (Inr (workers ! nat n1, workers ! nat n2, p'))"
proof -
  from getTwoNums_returns [OF assms(1,2)] obtain n1 n2 p'
    where r: "getTwoNums num p = Some (Inr (n1, n2, p'))" by blast
  from getTwoNums_result [OF r]
  have range: "n1 \<noteq> n2" "0 \<le> n1" "n1 < num" "0 \<le> n2" "n2 < num" "same_workers p p'"
    by simp_all
  with assms(3) have "getTwoWorker num workers p = Some (Inr (workers ! nat n1, workers ! nat n2, p'))"
    by (simp add: getTwoWorker_def r bind_outcome_simps index_slice_def)
  with r range show ?thesis by blast
qed

lemma distinct_nth_neq:
  "distinct xs \<Longrightarrow> i < length xs \<Longrightarrow> j < length xs \<Longrightarrow> i \<noteq> j \<Longrightarrow> xs ! i \<noteq> xs ! j"
  by (simp add: nth_eq_iff_index_eq)

text \<open>While no counter exceeds the capacity the code's choice is the spec's.\<close>

lemma p2c_choice_meets_spec:
  assumes "jobNum (heap p w1) \<le> WorkerContent (conf p)" "jobNum (heap p w2) \<le> WorkerContent (conf p)"
  shows "p2c_spec w1 w2 p (p2c_choice w1 w2 p)"
  using assms by (auto simp: p2c_spec_def p2c_choice_def)

lemma two_sample_tail:
  assumes gw: "getTwoWorker num ws p = Some (Inr (ws ! i, ws ! j, p1))"
    and sw: "same_workers p p1" and ij: "i < length ws" "j < length ws" "i \<noteq> j"
  shows "two_sampled ws p
     (bind_outcome (getTwoWorker num ws p)
       (\<lambda>(w1, w2, p1).
          let (full, p2) = both_at_content w1 w2 p1 in
          if full then Some (Inr (None, p2))
          else if jobNum (heap p2 w1) < jobNum (heap p2 w2) then Some (Inr (Some w1, p2))
          else Some (Inr (Some w2, p2))))"
proof -
  from sw have eqs: "heap p1 = heap p" "conf p1 = conf p" by (simp_all add: same_workers_def)
  have "bind_outcome (getTwoWorker num ws p)
       (\<lambda>(w1, w2, p1).
          let (full, p2) = both_at_content w1 w2 p1 in
          if full then Some (Inr (None, p2))
          else if jobNum (heap p2 w1) < jobNum (heap p2 w2) then Some (Inr (Some w1, p2))
          else Some (Inr (Some w2, p2))) = Some (Inr (p2c_choice (ws ! i) (ws ! j) p, p1))"
    by (simp add: gw bind_outcome_simps both_at_content_eq eqs p2c_choice_def)
  then show ?thesis
    unfolding two_sampled_def using ij sw by blast
qed

lemma two_sample_any:
  assumes "2 \<le> length ws" "draws_differ (int (length ws)) p"
  shows "two_sampled ws p
     (bind_outcome (getTwoWorker (int (length ws)) ws p)
       (\<lambda>(w1, w2, p1).
          let (full, p2) = both_at_content w1 w2 p1 in
          if full then Some (Inr (None, p2))
          else if jobNum (heap p2 w1) < jobNum (heap p2 w2) then Some (Inr (Some w1, p2))
          else Some (Inr (Some w2, p2))))"
proof -
  from assms(1) have "0 < int (length ws)" by linarith
  from getTwoWorker_returns [OF this assms(2) refl] obtain n1 n2 p'
    where r: "n1 \<noteq> n2" "0 \<le> n1" "n1 < int (length ws)" "0 \<le> n2" "n2 < int (length ws)"
      "same_workers p p'"
      "getTwoWorker (int (length ws)) ws p = Some (Inr (ws ! nat n1, ws ! nat n2, p'))"
    by blast
  from r(1-5) have "nat n1 < length ws" "nat n2 < length ws" "nat n1 \<noteq> nat n2" by auto
  from two_sample_tail [OF r(7) r(6) this] show ?thesis .
qed

lemma getWorkFormEnternal_pool0:
  "getWorkFormEnternal pool0 = Some (Inr (Some 1, pool0\<lparr>seededRand := sconst 0\<rparr>))"
  by (simp add: getWorkFormEnternal_def getTwoWorker_def getTwoNums_def seeded_Intn_def
      getTwoNums_loop.simps bind_outcome_simps index_slice_def both_at_content_eq
      pool0_def rt0_def conf0_def)

section \<open>What the selectors and the retry loop leave as they are\<close>

lemma bind_outcome_InrE:
  assumes "bind_outcome m k = Some (Inr r)"
  obtains v where "m = Some (Inr v)" "k v = Some (Inr r)"
  using assms by (auto simp: bind_outcome_def split: option.splits sum.splits)

lemma getTwoWorker_frame:
  assumes "getTwoWorker num ws p = Some (Inr (w1, w2, p'))"
  shows "same_workers p p'"
proof -
  from assms obtain v where v: "getTwoNums num p = Some (Inr v)"
    and k: "(case v of (num1, num2, p1) \<Rightarrow>
          case index_slice ws num1 of
            Inl e \<Rightarrow> Some (Inl e)
          | Inr w1 \<Rightarrow>
              (case index_slice ws num2 of
                 Inl e \<Rightarrow> Some (Inl e)
               | Inr w2 \<Rightarrow> Some (Inr (w1, w2, p1)))) = Some (Inr (w1, w2, p'))"
    unfolding getTwoWorker_def by (rule bind_outcome_InrE)
  obtain n1 n2 p1 where t: "v = (n1, n2, p1)" by (cases v)
  with k have "p1 = p'" by (auto split: sum.splits)
  with v t getTwoNums_result [of num p n1 n2 p'] show ?thesis by simp
qed

lemma p2c_tail_frame:
  assumes "bind_outcome (getTwoWorker num ws p)
       (\<lambda>(w1, w2, p1).
          let (full, p2) = both_at_content w1 w2 p1 in
          if full then Some (Inr (None, p2))
          else if jobNum (heap p2 w1) < jobNum (heap p2 w2) then Some (Inr (Some w1, p2))
          else Some (Inr (Some w2, p2))) = Some (Inr (w, p'))"
  shows "same_workers p p'"
proof (cases "getTwoWorker num ws p")
  case None
  with assms show ?thesis by (simp add: bind_outcome_simps)
next
  case (Some r)
  show ?thesis
  proof (cases r)
    case (Inl e)
    with Some assms show ?thesis by (simp add: bind_outcome_simps)
  next
    case (Inr v)
    obtain w1 w2 p1 where t: "v = (w1, w2, p1)" by (cases v)
    with Some Inr assms have "p' = p1"
      by (auto simp: bind_outcome_simps both_at_content_eq split: if_splits)
    with Some Inr t getTwoWorker_frame [of num ws p w1 w2 p1] show ?thesis by simp
  qed
qed

lemma getWorkFormEnternal_frame:
  "getWorkFormEnternal p = Some (Inr (w, p')) \<Longrightarrow> same_workers p p'"
  unfolding getWorkFormEnternal_def by (rule p2c_tail_frame)

lemma getWorkerFromTemp_frame:
  assumes "getWorkerFromTemp p = Some (Inr (w, p'))"
  shows "same_workers p p'"
proof (cases "temporaryWorker p")
  case None
  with assms show ?thesis by (auto simp: getWorkerFromTemp_def same_workers_def slice_of_def)
next
  case (Some tw)
  show ?thesis
  proof (cases "length tw = 0 \<or> length tw = 1")
    case True
    with Some assms show ?thesis
      by (auto simp: getWorkerFromTemp_def same_workers_refl index_slice_def
          CompareAndSwapInt64_same split: if_splits)
  next
    case False
    with Some assms show ?thesis
      by (auto simp: getWorkerFromTemp_def intro: p2c_tail_frame)
  qed
qed

text \<open>The three branches of the loop body of \<^verbatim>\<open>getWorkStep\<close> do the same.\<close>

lemma getWorkStep_loop_unfold:
  "getWorkStep_loop n num d f w p =
     (if n < num
      then bind_outcome (f (p\<lparr>clock := clock p + nat d\<rparr>))
             (\<lambda>(w', p'). getWorkStep_loop (n + 1) num d f w' p')
      else Some (Inr (w, p)))"
  by (subst getWorkStep_loop.simps)
    (simp add: bind_outcome_def split: option.splits sum.splits prod.splits)

lemma getWorkStep_loop_frame:
  assumes f: "\<And>q v q'. f q = Some (Inr (v, q')) \<Longrightarrow> same_workers q q'"
  shows "getWorkStep_loop n num d f w p = Some (Inr (w', p')) \<Longrightarrow> same_workers p p'"
proof (induction "nat (num - n)" arbitrary: n w p)
  case 0
  then show ?case
    by (subst (asm) getWorkStep_loop_unfold) (simp add: same_workers_refl)
next
  case (Suc k)
  then have lt: "n < num" by linarith
  let ?q = "p\<lparr>clock := clock p + nat d\<rparr>"
  from Suc.prems lt obtain v where fq: "f ?q = Some (Inr v)"
    and call: "(case v of (w1, q1) \<Rightarrow> getWorkStep_loop (n + 1) num d f w1 q1) = Some (Inr (w', p'))"
    by (subst (asm) getWorkStep_loop_unfold) (auto elim: bind_outcome_InrE)
  obtain w1 q1 where t: "v = (w1, q1)" by (cases v)
  from Suc.hyps(2) have k: "k = nat (num - (n + 1))" by linarith
  have "same_workers p ?q" by (simp add: same_workers_def)
  moreover have "same_workers ?q q1" using fq t by (auto intro: f)
  moreover have "same_workers q1 p'" using Suc.hyps(1) [OF k] call t by simp
  ultimately show ?case by (blast intro: same_workers_trans)
qed

lemma getWorkStep_frame:
  assumes "\<And>q v q'. f q = Some (Inr (v, q')) \<Longrightarrow> same_workers q q'"
    and "getWorkStep num d f p = Some (Inr (w', p'))"
  shows "same_workers p p'"
  using assms(2) getWorkStep_loop_frame [of f 0 num d None p w' p', OF assms(1)]
  by (auto simp: getWorkStep_def split: if_splits)

section \<open>What DoJob does to the state\<close>

lemma retry_stage_frame:
  assumes f: "\<And>q v q'. f q = Some (Inr (v, q')) \<Longrightarrow> same_workers q q'"
    and "(if nil_or_blocking w p then getWorkStep 3 1 f p else Some (Inr (w, p))) = Some (Inr (w', p'))"
  shows "same_workers p p'"
  using assms(2) getWorkStep_frame [of f 3 1 p w' p', OF f]
  by (auto simp: same_workers_refl split: if_splits)

lemma DoJob_cases:
  assumes "DoJob job p = Some (Inr (ok, p'))"
  shows "(isClosed p \<and> \<not> ok \<and> p' = p) \<or>
         (\<not> isClosed p \<and>
          (\<exists>q a. same_workers p q \<and>
             (sendJob a job q = (ok, p') \<or>
              sendJob (fst (newTempWorker q)) job (snd (newTempWorker q)) = (ok, p'))))"
proof (cases "isClosed p")
  case True
  with assms show ?thesis by (simp add: DoJob_def)
next
  case False
  note open_pool = False
  show ?thesis
  proof (cases "getWorkFormEnternal p")
    case None
    with assms open_pool show ?thesis by (simp add: DoJob_def bind_outcome_simps)
  next
    case (Some r1)
    show ?thesis
    proof (cases r1)
      case (Inl e)
      with Some assms open_pool show ?thesis by (simp add: DoJob_def bind_outcome_simps)
    next
      case (Inr v1)
      obtain w1 p1 where v1: "v1 = (w1, p1)" by (cases v1)
      from Some Inr v1 have s1: "getWorkFormEnternal p = Some (Inr (w1, p1))" by simp
      let ?s2 = "if nil_or_blocking w1 p1 then getWorkStep 3 1 getWorkFormEnternal p1
                 else Some (Inr (w1, p1))"
      show ?thesis
      proof (cases ?s2)
        case None
        with assms open_pool s1 show ?thesis by (simp add: DoJob_def bind_outcome_simps)
      next
        case (Some r2)
        note some2 = Some
        show ?thesis
        proof (cases r2)
          case (Inl e)
          with some2 assms open_pool s1 show ?thesis by (simp add: DoJob_def bind_outcome_simps)
        next
          case (Inr v2)
          obtain w2 p2 where v2: "v2 = (w2, p2)" by (cases v2)
          from some2 Inr v2 have s2: "?s2 = Some (Inr (w2, p2))" by simp
          let ?s3 = "if nil_or_blocking w2 p2 then getWorkStep 3 1 getWorkerFromTemp p2
                     else Some (Inr (w2, p2))"
          show ?thesis
          proof (cases ?s3)
            case None
            with assms open_pool s1 s2 show ?thesis by (simp add: DoJob_def bind_outcome_simps)
          next
            case (Some r3)
            note some3 = Some
            show ?thesis
            proof (cases r3)
              case (Inl e)
              with some3 assms open_pool s1 s2 show ?thesis
                by (simp add: DoJob_def bind_outcome_simps)
            next
              case (Inr v3)
              obtain w3 p3 where v3: "v3 = (w3, p3)" by (cases v3)
              from some3 Inr v3 have s3: "?s3 = Some (Inr (w3, p3))" by simp
              have f1: "same_workers p p1" using s1 by (rule getWorkFormEnternal_frame)
              have f2: "same_workers p1 p2"
                using s2 by (rule retry_stage_frame [rotated]) (rule getWorkFormEnternal_frame)
              have f3: "same_workers p2 p3"
                using s3 by (rule retry_stage_frame [rotated]) (rule getWorkerFromTemp_frame)
              have f: "same_workers p p3"
                using f1 f2 f3 by (blast intro: same_workers_trans)
              from assms open_pool s1 s2 s3
              have fin: "(let (w4, p4) = (if nil_or_blocking w3 p3
                                     then (let (a, q) = newTempWorker p3 in (Some a, q))
                                     else (w3, p3))
                     in case w4 of None \<Rightarrow> Some (Inl NilDereference)
                        | Some a \<Rightarrow> Some (Inr (sendJob a job p4))) = Some (Inr (ok, p'))"
                by (simp add: DoJob_def bind_outcome_simps)
              show ?thesis
              proof (cases "nil_or_blocking w3 p3")
                case True
                with fin have "sendJob (fst (newTempWorker p3)) job (snd (newTempWorker p3)) = (ok, p')"
                  by (simp add: split_def Let_def)
                with f open_pool show ?thesis by blast
              next
                case False
                then obtain a where "w3 = Some a" by (cases w3) (simp_all add: nil_or_blocking_def)
                with False fin have "sendJob a job p3 = (ok, p')" by simp
                with f open_pool show ?thesis by blast
              qed
            qed
          qed
        qed
      qed
    qed
  qed
qed

section \<open>Steps of a run\<close>

lemma list_shape:
  obtains "xs = []" | a where "xs = [a]" | a b where "xs = [a, b]" | "3 \<le> length xs"
proof (cases xs)
  case Nil
  then show ?thesis using that(1) by simp
next
  case c1: (Cons a ys)
  show ?thesis
  proof (cases ys)
    case Nil
    with c1 show ?thesis using that(2) by simp
  next
    case c2: (Cons b zs)
    show ?thesis
    proof (cases zs)
      case Nil
      with c1 c2 show ?thesis using that(3) by simp
    next
      case (Cons c us)
      with c1 c2 show ?thesis using that(4) by simp
    qed
  qed
qed

lemma removeFromParent_result:
  assumes "removeFromParent wid p = Some (Inr p')"
  shows "heap p' = heap p \<and> conf p' = conf p \<and> isClose p' = isClose p \<and>
         cancelled p' = cancelled p \<and> eternalWorker p' = eternalWorker p \<and>
         set (slice_of (temporaryWorker p')) \<subseteq> set (slice_of (temporaryWorker p))"
proof (cases "temporaryWorker p")
  case None
  with assms show ?thesis by (simp add: removeFromParent_nil)
next
  case (Some tw)
  show ?thesis
  proof (cases tw rule: list_shape)
    case 1
    with Some assms show ?thesis by (simp add: removeFromParent_empty)
  next
    case (2 a)
    with Some assms removeFromParent_one [of p a wid] show ?thesis
      by (auto simp: slice_of_def split: if_splits)
  next
    case (3 a b)
    with Some assms removeFromParent_two [of p a b wid] show ?thesis
      by (auto simp: slice_of_def split: if_splits)
  next
    case 4
    with Some assms removeFromParent_three [of p tw wid] show ?thesis by simp
  qed
qed

lemma step_ok_refl: "step_ok p p"
  by (simp add: step_ok_def)

lemma step_ok_trans: "step_ok p q \<Longrightarrow> step_ok q r \<Longrightarrow> step_ok p r"
  by (auto simp: step_ok_def)

lemma step_ok_same_workers: "same_workers p q \<Longrightarrow> step_ok p q"
  using load_bounded_cong [of q p]
  by (auto simp: step_ok_def same_workers_def flag_inv_def isClosed_def)

lemma step_ok_removeFromParent:
  assumes "removeFromParent wid p = Some (Inr p')"
  shows "step_ok p p'"
proof -
  from removeFromParent_result [OF assms]
  have r: "heap p' = heap p" "conf p' = conf p" "isClose p' = isClose p"
    "cancelled p' = cancelled p" "workers_of p' \<subseteq> workers_of p"
    by (auto simp: workers_of_def)
  then have "load_bounded p \<Longrightarrow> load_bounded p'"
    unfolding load_bounded_def by (metis subsetD)
  with r show ?thesis by (auto simp: step_ok_def flag_inv_def isClosed_def)
qed

lemma step_ok_Close: "step_ok p (Close p)"
proof -
  have "load_bounded (Close p) = load_bounded p"
    by (rule load_bounded_cong) (simp_all add: Close_def)
  then show ?thesis by (auto simp: step_ok_def Close_def flag_inv_def isClosed_def)
qed

lemma load_bounded_update:
  assumes "load_bounded p" "heap q = (heap p)(a := w)" "conf q = conf p"
    and "workers_of q = workers_of p"
    and "a \<in> workers_of p \<Longrightarrow> 0 \<le> jobNum w \<and> jobNum w \<le> content w \<and> content w = WorkerContent (conf p)"
  shows "load_bounded q"
  unfolding load_bounded_def
proof
  fix b assume b: "b \<in> workers_of q"
  with assms(1,4) have old: "0 \<le> jobNum (heap p b) \<and> jobNum (heap p b) \<le> content (heap p b) \<and>
        content (heap p b) = WorkerContent (conf p)"
    unfolding load_bounded_def by blast
  show "0 \<le> jobNum (heap q b) \<and> jobNum (heap q b) \<le> content (heap q b) \<and>
        content (heap q b) = WorkerContent (conf q)"
  proof (cases "b = a")
    case True
    with b assms(2-5) show ?thesis by simp
  next
    case False
    with old assms(2,3) show ?thesis by simp
  qed
qed

lemma step_ok_finishJob: "step_ok p (finishJob a p)"
proof -
  have "load_bounded p \<Longrightarrow> load_bounded (finishJob a p)"
  proof (cases "0 < jobNum (heap p a)")
    case False
    assume "load_bounded p"
    with False show ?thesis by (simp add: finishJob_def)
  next
    case True
    assume lb: "load_bounded p"
    show ?thesis
    proof (rule load_bounded_update [OF lb, where a = a])
      show "heap (finishJob a p) = (heap p)(a := (heap p a)\<lparr>jobNum := jobNum (heap p a) - 1,
              Blocking := (if jobNum (heap p a) - 1 < content (heap p a) then 0
                           else Blocking (heap p a))\<rparr>)"
        using True by (simp add: finishJob_def Let_def)
      show "conf (finishJob a p) = conf p" by (simp add: finishJob_def Let_def)
      show "workers_of (finishJob a p) = workers_of p"
        by (simp add: finishJob_def workers_of_def Let_def)
    next
      assume "a \<in> workers_of p"
      with lb have "0 \<le> jobNum (heap p a) \<and> jobNum (heap p a) \<le> content (heap p a) \<and>
        content (heap p a) = WorkerContent (conf p)"
        unfolding load_bounded_def by blast
      with True show "0 \<le> jobNum ((heap p a)\<lparr>jobNum := jobNum (heap p a) - 1,
              Blocking := (if jobNum (heap p a) - 1 < content (heap p a) then 0
                           else Blocking (heap p a))\<rparr>) \<and>
          jobNum ((heap p a)\<lparr>jobNum := jobNum (heap p a) - 1,
              Blocking := (if jobNum (heap p a) - 1 < content (heap p a) then 0
                           else Blocking (heap p a))\<rparr>)
            \<le> content ((heap p a)\<lparr>jobNum := jobNum (heap p a) - 1,
              Blocking := (if jobNum (heap p a) - 1 < content (heap p a) then 0
                           else Blocking (heap p a))\<rparr>) \<and>
          content ((heap p a)\<lparr>jobNum := jobNum (heap p a) - 1,
              Blocking := (if jobNum (heap p a) - 1 < content (heap p a) then 0
                           else Blocking (heap p a))\<rparr>) = WorkerContent (conf p)"
        by simp
    qed
  qed
  then show ?thesis
    by (auto simp: step_ok_def finishJob_def flag_inv_def isClosed_def Let_def)
qed

lemma step_ok_sendJob: "step_ok p (snd (sendJob a job p))"
proof -
  have "load_bounded p \<Longrightarrow> load_bounded (snd (sendJob a job p))"
  proof -
    assume lb: "load_bounded p"
    let ?w = "if jobNum (heap p a) < content (heap p a)
              then (heap p a)\<lparr>jobNum := jobNum (heap p a) + 1\<rparr>
              else (heap p a)\<lparr>Blocking := 1\<rparr>"
    show ?thesis
    proof (rule load_bounded_update [OF lb, where a = a and w = ?w])
      show "heap (snd (sendJob a job p)) = (heap p)(a := ?w)"
        by (simp add: sendJob_def Let_def)
      show "conf (snd (sendJob a job p)) = conf p" by (simp add: sendJob_def Let_def)
      show "workers_of (snd (sendJob a job p)) = workers_of p"
        by (simp add: sendJob_def workers_of_def Let_def)
    next
      assume "a \<in> workers_of p"
      with lb have "0 \<le> jobNum (heap p a) \<and> jobNum (heap p a) \<le> content (heap p a) \<and>
        content (heap p a) = WorkerContent (conf p)"
        unfolding load_bounded_def by blast
      then show "0 \<le> jobNum ?w \<and> jobNum ?w \<le> content ?w \<and> content ?w = WorkerContent (conf p)"
        by simp
    qed
  qed
  then show ?thesis
    by (auto simp: step_ok_def sendJob_def flag_inv_def isClosed_def Let_def)
qed

lemma step_ok_newTempWorker: "step_ok p (snd (newTempWorker p))"
proof -
  have "load_bounded (snd (newTempWorker p))"
    if lb: "load_bounded p" and cap: "0 \<le> WorkerContent (conf p)"
    by (rule load_bounded_alloc [OF lb cap, where a = "nextAddr p"])
      (auto simp: newTempWorker_def newWorker_def Let_def workers_of_def slice_of_def
        split: option.splits)
  then show ?thesis
    by (auto simp: step_ok_def newTempWorker_def newWorker_def flag_inv_def isClosed_def Let_def)
qed

lemma step_ok_DoJob:
  assumes "DoJob job p = Some (Inr (ok, p'))"
  shows "step_ok p p'"
proof -
  from DoJob_cases [OF assms] consider "p' = p"
    | q a where "same_workers p q" "sendJob a job q = (ok, p')"
    | q where "same_workers p q"
        "sendJob (fst (newTempWorker q)) job (snd (newTempWorker q)) = (ok, p')"
    by blast
  then show ?thesis
  proof cases
    case 1
    then show ?thesis by (simp add: step_ok_refl)
  next
    case 2
    from step_ok_sendJob [of q a job] 2(2) have "step_ok q p'" by simp
    with step_ok_same_workers [OF 2(1)] show ?thesis by (rule step_ok_trans)
  next
    case 3
    from step_ok_sendJob [of "snd (newTempWorker q)" "fst (newTempWorker q)" job] 3(2)
    have "step_ok (snd (newTempWorker q)) p'" by simp
    with step_ok_newTempWorker [of q] have "step_ok q p'" by (rule step_ok_trans)
    with step_ok_same_workers [OF 3(1)] show ?thesis by (rule step_ok_trans)
  qed
qed

lemma step_ok_exec:
  assumes "exec ev p = Some (Inr p')"
  shows "step_ok p p'"
proof (cases ev)
  case (DoJobEv job)
  with assms obtain ok where "DoJob job p = Some (Inr (ok, p'))"
    by (auto simp: exec_def elim!: bind_outcome_InrE)
  then show ?thesis by (rule step_ok_DoJob)
next
  case CloseEv
  with assms show ?thesis using step_ok_Close [of p] by (simp add: exec_def)
next
  case (RemoveEv wid)
  with assms show ?thesis using step_ok_removeFromParent [of wid p p'] by (simp add: exec_def)
next
  case (FinishEv a)
  with assms show ?thesis using step_ok_finishJob [of p a] by (simp add: exec_def)
qed


lemma reachable_inv:
  "reachable p \<Longrightarrow> flag_inv p \<and> (0 \<le> WorkerContent (conf p) \<longrightarrow> load_bounded p)"
proof (induction rule: reachable.induct)
  case (init d c rt p)
  show ?case
  proof (cases "WorkerNum (conf_or_default d c) < 2")
    case True
    with init NewPool_panics [of d c rt] show ?thesis by simp
  next
    case False
    then have "2 \<le> WorkerNum (conf_or_default d c)" by simp
    from NewPool_returns [OF this, of rt] init show ?thesis by (auto simp: flag_inv_def)
  qed
next
  case (step p ev p')
  from step_ok_exec [OF step.hyps(2)] step.IH show ?case by (auto simp: step_ok_def)
qed

lemma exec_DoJob_pool0: "exec (DoJobEv 7) pool0 = Some (Inr busy_pool)"
  by (simp add: exec_def DoJob_def isClosed_def getWorkFormEnternal_pool0 bind_outcome_simps
      nil_or_blocking_def IsBlocking_def sendJob_def Let_def busy_pool_def)
    (simp add: pool0_def)

lemma reachable_busy_pool: "reachable busy_pool"
  by (rule reachable.step [OF reachable.init [OF NewPool_example] exec_DoJob_pool0])

section \<open>The load of a worker\<close>

text \<open>
  C8. In every state a pool reaches from \<^verbatim>\<open>NewPool\<close> by jobs submitted, jobs
  completed, unregistrations and \<^verbatim>\<open>Close\<close>, and for a configured capacity that is
  not negative, every registered worker (eternal or temporary) holds at least 0 and at
  most its capacity many jobs, and its capacity is the configured one.
\<close>

theorem jobNum_within_capacity:
  assumes "reachable p" "0 \<le> WorkerContent (conf p)" "a \<in> workers_of p"
  shows "0 \<le> jobNum (heap p a) \<and> jobNum (heap p a) \<le> content (heap p a) \<and>
         content (heap p a) = WorkerContent (conf p)"
  using reachable_inv [OF assms(1)] assms(2,3) unfolding load_bounded_def by blast

theorem jobNum_within_capacity_witness:
  "reachable busy_pool \<and> 0 \<le> WorkerContent (conf busy_pool) \<and> 1 \<in> workers_of busy_pool \<and>
   jobNum (heap busy_pool 1) = 1 \<and>
   0 \<le> jobNum (heap busy_pool 1) \<and> jobNum (heap busy_pool 1) \<le> content (heap busy_pool 1) \<and>
   content (heap busy_pool 1) = WorkerContent (conf busy_pool)"
proof -
  have c: "0 \<le> WorkerContent (conf busy_pool)" and w: "1 \<in> workers_of busy_pool"
    and j: "jobNum (heap busy_pool 1) = 1"
    by (simp_all add: busy_pool_def pool0_def conf0_def workers_of_def)
  from jobNum_within_capacity [OF reachable_busy_pool c w] reachable_busy_pool c w j
  show ?thesis by simp
qed

section \<open>Closing\<close>



section \<open>Registries hold distinct workers\<close>

lemma fresh_cong:
  "eternalWorker q = eternalWorker p \<Longrightarrow>
   slice_of (temporaryWorker q) = slice_of (temporaryWorker p) \<Longrightarrow> nextAddr q = nextAddr p \<Longrightarrow>
   registries_fresh q = registries_fresh p"
  by (simp add: registries_fresh_def workers_of_def)

lemma fresh_append:
  assumes "registries_fresh p" and "nextAddr q = Suc (nextAddr p)"
    and "(eternalWorker q = eternalWorker p @ [nextAddr p] \<and>
          slice_of (temporaryWorker q) = slice_of (temporaryWorker p)) \<or>
         (eternalWorker q = eternalWorker p \<and>
          slice_of (temporaryWorker q) = slice_of (temporaryWorker p) @ [nextAddr p])"
  shows "registries_fresh q"
proof -
  from assms(1) have d: "distinct (eternalWorker p)" "distinct (slice_of (temporaryWorker p))"
    and below: "\<And>a. a \<in> set (eternalWorker p) \<union> set (slice_of (temporaryWorker p)) \<Longrightarrow> a < nextAddr p"
    by (auto simp: registries_fresh_def workers_of_def)
  from below have notin: "nextAddr p \<notin> set (eternalWorker p)"
    "nextAddr p \<notin> set (slice_of (temporaryWorker p))"
    by (auto dest: below)
  from assms(3) d notin have "distinct (eternalWorker q)" "distinct (slice_of (temporaryWorker q))"
    by auto
  moreover have "a < nextAddr q" if "a \<in> workers_of q" for a
  proof -
    from that assms(3) have "a = nextAddr p \<or> a \<in> set (eternalWorker p) \<union> set (slice_of (temporaryWorker p))"
      by (auto simp: workers_of_def)
    with below [of a] assms(2) show ?thesis by auto
  qed
  ultimately show ?thesis by (simp add: registries_fresh_def)
qed

lemma fresh_same_workers: "same_workers p q \<Longrightarrow> registries_fresh p \<Longrightarrow> registries_fresh q"
  using fresh_cong [of q p] by (simp add: same_workers_def)

lemma fresh_sendJob: "registries_fresh p \<Longrightarrow> registries_fresh (snd (sendJob a job p))"
  using fresh_cong [of "snd (sendJob a job p)" p] by (simp add: sendJob_def Let_def)

lemma fresh_finishJob: "registries_fresh p \<Longrightarrow> registries_fresh (finishJob a p)"
  using fresh_cong [of "finishJob a p" p] by (simp add: finishJob_def Let_def)

lemma fresh_Close: "registries_fresh p \<Longrightarrow> registries_fresh (Close p)"
  using fresh_cong [of "Close p" p] by (simp add: Close_def)

lemma slice_of_Some: "slice_of (Some xs) = xs"
  by (simp add: slice_of_def)

lemma fresh_newTempWorker: "registries_fresh p \<Longrightarrow> registries_fresh (snd (newTempWorker p))"
  by (erule fresh_append) (simp_all add: newTempWorker_def newWorker_def Let_def slice_of_Some)

lemma fresh_startPool_body: "registries_fresh p \<Longrightarrow> registries_fresh (startPool_body i p)"
  by (erule fresh_append) (simp_all add: startPool_body_def newWorker_def Let_def)

lemma fresh_startPool_loop: "registries_fresh p \<Longrightarrow> registries_fresh (startPool_loop i p)"
proof (induction i p rule: startPool_loop.induct)
  case (1 i p)
  show ?case
  proof (cases "i < WorkerNum (conf p)")
    case True
    with 1(1) [OF True fresh_startPool_body [OF 1(2)]] show ?thesis
      by (subst startPool_loop.simps) simp
  next
    case False
    with 1(2) show ?thesis by (simp add: startPool_loop.simps)
  qed
qed

lemma fresh_NewPool:
  assumes "NewPool d c rt = Inr p"
  shows "registries_fresh p"
proof -
  define p0 where "p0 = \<lparr>heap = heap rt, nextAddr = nextAddr rt, wg = wg rt, seededRand = seededRand rt,
         globalRand = globalRand rt, uuids = uuids rt, clock = clock rt,
         eternalWorker = [], cancelled = False, conf = conf_or_default d c, isClose = 1,
         temporaryWorker = None\<rparr>"
  from assms have p: "p = startPool p0"
    by (simp add: NewPool_def p0_def Let_def split: if_splits)
  have "registries_fresh p0"
    by (simp add: registries_fresh_def workers_of_def slice_of_def p0_def)
  then have "registries_fresh (startPool_loop 0 p0)" by (rule fresh_startPool_loop)
  moreover have "registries_fresh (startPool p0) = registries_fresh (startPool_loop 0 p0)"
    by (rule fresh_cong) (simp_all add: startPool_def Let_def)
  ultimately show ?thesis using p by simp
qed

lemma fresh_removeFromParent:
  assumes "removeFromParent wid p = Some (Inr p')" "registries_fresh p"
  shows "registries_fresh p'"
proof (cases "temporaryWorker p")
  case None
  with assms show ?thesis by (simp add: removeFromParent_nil)
next
  case (Some tw)
  show ?thesis
  proof (cases tw rule: list_shape)
    case 1
    with Some assms show ?thesis by (simp add: removeFromParent_empty)
  next
    case (2 a)
    with Some assms removeFromParent_one [of p a wid] show ?thesis
      by (auto simp: registries_fresh_def workers_of_def slice_of_def split: if_splits)
  next
    case (3 a b)
    with Some assms removeFromParent_two [of p a b wid] show ?thesis
      by (auto simp: registries_fresh_def workers_of_def slice_of_def split: if_splits)
  next
    case 4
    with Some assms removeFromParent_three [of p tw wid] show ?thesis by simp
  qed
qed

lemma fresh_DoJob:
  assumes "DoJob job p = Some (Inr (ok, p'))" "registries_fresh p"
  shows "registries_fresh p'"
proof -
  from DoJob_cases [OF assms(1)] consider "p' = p"
    | q a where "same_workers p q" "sendJob a job q = (ok, p')"
    | q where "same_workers p q"
        "sendJob (fst (newTempWorker q)) job (snd (newTempWorker q)) = (ok, p')"
    by blast
  then show ?thesis
  proof cases
    case 1
    with assms(2) show ?thesis by simp
  next
    case 2
    from fresh_sendJob [OF fresh_same_workers [OF 2(1) assms(2)], of a job] 2(2)
    show ?thesis by simp
  next
    case 3
    from fresh_sendJob [OF fresh_newTempWorker [OF fresh_same_workers [OF 3(1) assms(2)]],
        of "fst (newTempWorker q)" job] 3(2)
    show ?thesis by simp
  qed
qed

lemma fresh_exec:
  assumes "exec ev p = Some (Inr p')" "registries_fresh p"
  shows "registries_fresh p'"
proof (cases ev)
  case (DoJobEv job)
  with assms(1) obtain ok where "DoJob job p = Some (Inr (ok, p'))"
    by (auto simp: exec_def elim!: bind_outcome_InrE)
  then show ?thesis using assms(2) by (rule fresh_DoJob)
next
  case CloseEv
  with assms show ?thesis using fresh_Close [of p] by (simp add: exec_def)
next
  case (RemoveEv wid)
  with assms show ?thesis using fresh_removeFromParent [of wid p p'] by (simp add: exec_def)
next
  case (FinishEv a)
  with assms show ?thesis using fresh_finishJob [of p a] by (simp add: exec_def)
qed

text \<open>
  In every state a pool reaches, each registry lists distinct workers, all of them
  allocated.
\<close>

lemma reachable_registries_fresh: "reachable p \<Longrightarrow> registries_fresh p"
proof (induction rule: reachable.induct)
  case (init d c rt p)
  then show ?case by (rule fresh_NewPool)
next
  case (step p ev p')
  from fresh_exec [OF step.hyps(2) step.IH] show ?case .
qed


section \<open>Two distinct indices, two distinct workers\<close>

text \<open>
  A global generator that does not return one index for ever yields, sooner or later,
  an index other than the first one drawn.
\<close>

lemma source_varies_draws_differ:
  assumes "source_varies num (globalRand p)"
  shows "draws_differ num p"
proof -
  from assms obtain i j where
    ij: "int (globalRand p !! i) mod num \<noteq> int (globalRand p !! j) mod num"
    unfolding source_varies_def by blast
  then have "int (globalRand p !! i) mod num \<noteq> int (shd (seededRand p)) mod num \<or>
             int (globalRand p !! j) mod num \<noteq> int (shd (seededRand p)) mod num"
    by auto
  then show ?thesis unfolding draws_differ_def by blast
qed

lemma source_varies_example: "source_varies 2 (siterate Suc 0)"
  unfolding source_varies_def
  by (intro exI [of _ 0] exI [of _ "Suc 0"]) simp

lemma pool0_sources: "globalRand pool0 = siterate Suc 0" "globalRand two_temps = siterate Suc 0"
  by (simp_all add: pool0_def rt0_def two_temps_def newTempWorker_def newWorker_def Let_def)

lemma reachable_pool0: "reachable pool0"
  by (rule reachable.init [OF NewPool_example])

text \<open>
  C9. For \<open>num \<ge> 2\<close>, with a global generator that does not return one index for
  ever, \<^verbatim>\<open>getTwoNums\<close> returns, and its two indices are distinct and lie in
  \<open>[0, num)\<close>. Consequently \<^verbatim>\<open>getTwoWorker\<close> on a registry of the pool (the eternal or
  the temporary one, of \<open>num\<close> workers, in any state the pool reaches) returns two
  distinct workers of that registry.
\<close>

theorem getTwoNums_distinct_in_range:
  assumes "2 \<le> num" "source_varies num (globalRand p)"
  shows "\<exists>n1 n2 p'. getTwoNums num p = Some (Inr (n1, n2, p')) \<and>
           n1 \<noteq> n2 \<and> 0 \<le> n1 \<and> n1 < num \<and> 0 \<le> n2 \<and> n2 < num \<and>
           (\<forall>workers.
              reachable p \<and>
              (workers = eternalWorker p \<or> workers = slice_of (temporaryWorker p)) \<and>
              int (length workers) = num \<longrightarrow>
              getTwoWorker num workers p = Some (Inr (workers ! nat n1, workers ! nat n2, p')) \<and>
              workers ! nat n1 \<noteq> workers ! nat n2 \<and>
              workers ! nat n1 \<in> set workers \<and> workers ! nat n2 \<in> set workers)"
proof -
  from assms(1) have pos: "0 < num" by simp
  from getTwoNums_returns [OF pos source_varies_draws_differ [OF assms(2)]] obtain n1 n2 p'
    where r: "getTwoNums num p = Some (Inr (n1, n2, p'))" by blast
  from getTwoNums_result [OF r]
  have range: "n1 \<noteq> n2" "0 \<le> n1" "n1 < num" "0 \<le> n2" "n2 < num" by simp_all
  have "getTwoWorker num workers p = Some (Inr (workers ! nat n1, workers ! nat n2, p')) \<and>
        workers ! nat n1 \<noteq> workers ! nat n2 \<and>
        workers ! nat n1 \<in> set workers \<and> workers ! nat n2 \<in> set workers"
    if reach: "reachable p"
      and reg: "workers = eternalWorker p \<or> workers = slice_of (temporaryWorker p)"
      and len: "int (length workers) = num" for workers
  proof -
    from reachable_registries_fresh [OF reach] reg have d: "distinct workers"
      by (auto simp: registries_fresh_def)
    from range len have idx: "nat n1 < length workers" "nat n2 < length workers"
      "nat n1 \<noteq> nat n2" by auto
    from range len have "getTwoWorker num workers p
        = Some (Inr (workers ! nat n1, workers ! nat n2, p'))"
      by (simp add: getTwoWorker_def r bind_outcome_simps index_slice_def)
    with distinct_nth_neq [OF d idx] idx show ?thesis by simp
  qed
  with r range show ?thesis by blast
qed

theorem getTwoNums_distinct_in_range_witness:
  "(2::int) \<le> 2 \<and> source_varies 2 (globalRand pool0) \<and> reachable pool0 \<and>
   eternalWorker pool0 = [0, 1] \<and> int (length [0, 1 :: addr]) = 2 \<and>
   getTwoNums 2 pool0 = Some (Inr (0, 1, pool0\<lparr>seededRand := sconst 0\<rparr>)) \<and>
   getTwoWorker 2 [0, 1] pool0 = Some (Inr (0, 1, pool0\<lparr>seededRand := sconst 0\<rparr>))"
proof -
  have sv: "source_varies 2 (globalRand pool0)"
    using source_varies_example by (simp add: pool0_sources)
  have e: "eternalWorker pool0 = [0, 1]" by (simp add: pool0_def)
  have n: "getTwoNums 2 pool0 = Some (Inr (0, 1, pool0\<lparr>seededRand := sconst 0\<rparr>))"
    by (simp add: getTwoNums_def seeded_Intn_def getTwoNums_loop.simps bind_outcome_simps
        pool0_def rt0_def)
  from getTwoNums_distinct_in_range [of 2 pool0, OF _ sv] n
  have "reachable pool0 \<and> ([0, 1] = eternalWorker pool0 \<or> [0, 1] = slice_of (temporaryWorker pool0)) \<and>
        int (length [0, 1 :: addr]) = 2 \<longrightarrow>
        getTwoWorker 2 [0, 1] pool0 = Some (Inr ([0, 1] ! nat 0, [0, 1] ! nat 1,
          pool0\<lparr>seededRand := sconst 0\<rparr>))"
    by auto
  with reachable_pool0 e have "getTwoWorker 2 [0, 1] pool0
      = Some (Inr (0, 1, pool0\<lparr>seededRand := sconst 0\<rparr>))"
    by simp
  with sv reachable_pool0 e n show ?thesis by simp
qed

section \<open>The choice between two samples\<close>

lemma two_sampled_as_spec:
  assumes "two_sampled ws p out"
    and "\<forall>a\<in>set ws. jobNum (heap p a) \<le> WorkerContent (conf p)"
  shows "two_sampled_spec ws p out"
proof -
  from assms(1) obtain i j p' where
    o: "out = Some (Inr (p2c_choice (ws ! i) (ws ! j) p, p'))"
    and ij: "i < length ws" "j < length ws" "i \<noteq> j" and sw: "same_workers p p'"
    unfolding two_sampled_def by blast
  from assms(2) ij have "jobNum (heap p (ws ! i)) \<le> WorkerContent (conf p)"
    "jobNum (heap p (ws ! j)) \<le> WorkerContent (conf p)" by simp_all
  then have "p2c_spec (ws ! i) (ws ! j) p (p2c_choice (ws ! i) (ws ! j) p)"
    by (rule p2c_choice_meets_spec)
  with o ij sw show ?thesis unfolding two_sampled_spec_def by blast
qed

text \<open>In every state a pool reaches no counter of a registered worker exceeds the capacity.\<close>

lemma reachable_counters_bounded:
  assumes "reachable p" "0 \<le> WorkerContent (conf p)" "set ws \<subseteq> workers_of p"
  shows "\<forall>a\<in>set ws. jobNum (heap p a) \<le> WorkerContent (conf p)"
proof
  fix a assume "a \<in> set ws"
  with assms(3) have "a \<in> workers_of p" by auto
  with reachable_inv [OF assms(1)] assms(2)
  have "jobNum (heap p a) \<le> content (heap p a) \<and> content (heap p a) = WorkerContent (conf p)"
    unfolding load_bounded_def by blast
  then show "jobNum (heap p a) \<le> WorkerContent (conf p)" by simp
qed

text \<open>
  C2. On a registry \<open>ws\<close> of at least two workers none of whose counters exceeds the
  capacity (as in every state the pool reaches), and with a global generator that does
  not return one index for ever, one selector call (\<^verbatim>\<open>getWorkFormEnternal\<close> on the
  eternal registry, \<^verbatim>\<open>getWorkerFromTemp\<close> on a temporary registry) returns; it has
  sampled two distinct indices, and it returns nil if both sampled counters are at or
  above the capacity, and otherwise a sampled worker whose counter is the smaller one.
  Workers, registries and flags stay as they were.
\<close>

theorem two_sample_selection:
  assumes "2 \<le> length ws" "source_varies (int (length ws)) (globalRand p)"
    and "\<forall>a\<in>set ws. jobNum (heap p a) \<le> WorkerContent (conf p)"
  shows "(eternalWorker p = ws \<and> WorkerNum (conf p) = int (length ws) \<longrightarrow>
            two_sampled_spec ws p (getWorkFormEnternal p)) \<and>
         (temporaryWorker p = Some ws \<longrightarrow> two_sampled_spec ws p (getWorkerFromTemp p))"
proof (intro conjI impI)
  note any = two_sample_any [OF assms(1) source_varies_draws_differ [OF assms(2)]]
  {
    assume "eternalWorker p = ws \<and> WorkerNum (conf p) = int (length ws)"
    with any have "two_sampled ws p (getWorkFormEnternal p)"
      by (simp add: getWorkFormEnternal_def)
    then show "two_sampled_spec ws p (getWorkFormEnternal p)"
      using assms(3) by (rule two_sampled_as_spec)
  next
    assume "temporaryWorker p = Some ws"
    moreover from assms(1) have "length ws \<noteq> 0" "length ws \<noteq> 1" by linarith+
    ultimately have "two_sampled ws p (getWorkerFromTemp p)"
      using any by (simp add: getWorkerFromTemp_def)
    then show "two_sampled_spec ws p (getWorkerFromTemp p)"
      using assms(3) by (rule two_sampled_as_spec)
  }
qed

theorem two_sample_selection_witness:
  "2 \<le> length [0, 1 :: addr] \<and> source_varies (int (length [0, 1 :: addr])) (globalRand pool0) \<and>
   jobNum (heap pool0 0) \<le> WorkerContent (conf pool0) \<and>
   jobNum (heap pool0 1) \<le> WorkerContent (conf pool0) \<and>
   eternalWorker pool0 = [0, 1] \<and> WorkerNum (conf pool0) = int (length [0, 1 :: addr]) \<and>
   two_sampled_spec [0, 1] pool0 (getWorkFormEnternal pool0) \<and>
   getWorkFormEnternal pool0 = Some (Inr (Some 1, pool0\<lparr>seededRand := sconst 0\<rparr>)) \<and>
   2 \<le> length [2, 3 :: addr] \<and> source_varies (int (length [2, 3 :: addr])) (globalRand two_temps) \<and>
   jobNum (heap two_temps 2) \<le> WorkerContent (conf two_temps) \<and>
   jobNum (heap two_temps 3) \<le> WorkerContent (conf two_temps) \<and>
   temporaryWorker two_temps = Some [2, 3] \<and>
   two_sampled_spec [2, 3] two_temps (getWorkerFromTemp two_temps)"
proof -
  have e: "eternalWorker pool0 = [0, 1]" "WorkerNum (conf pool0) = int (length [0, 1 :: addr])"
    by (simp_all add: pool0_def conf0_def)
  have b1: "jobNum (heap pool0 0) \<le> WorkerContent (conf pool0)"
    "jobNum (heap pool0 1) \<le> WorkerContent (conf pool0)"
    by (simp_all add: pool0_def conf0_def)
  have b2: "jobNum (heap two_temps 2) \<le> WorkerContent (conf two_temps)"
    "jobNum (heap two_temps 3) \<le> WorkerContent (conf two_temps)"
    by (simp_all add: two_temps_def pool0_def conf0_def newTempWorker_def newWorker_def Let_def)
  have s1: "source_varies (int (length [0, 1 :: addr])) (globalRand pool0)"
    and s2: "source_varies (int (length [2, 3 :: addr])) (globalRand two_temps)"
    using source_varies_example by (simp_all add: pool0_sources)
  from two_sample_selection [of "[0, 1]" pool0] s1 b1 e
  have "two_sampled_spec [0, 1] pool0 (getWorkFormEnternal pool0)" by simp
  moreover from two_sample_selection [of "[2, 3]" two_temps] s2 b2 two_temps_registry
  have "two_sampled_spec [2, 3] two_temps (getWorkerFromTemp two_temps)" by simp
  ultimately show ?thesis
    using e b1 b2 s1 s2 two_temps_registry getWorkFormEnternal_pool0 by simp
qed

end
